theory Spec2Isabelle
  imports Complex_Main
begin

section \<open>Numbers and errors\<close>

text \<open>
  The library computes with JavaScript numbers. Dimensions, indices, flat offsets and
  vector sizes are modelled as exact reals: every one the code accepts is an integer far
  below \<open>2^53\<close>, where the arithmetic of the code is exact. The integrality tests of the
  source (\<^verbatim>\<open>x % 1 !== 0\<close>) are kept as branches, so a non-integral argument is an input of
  the model like any other.
\<close>

type_synonym number = real

text \<open>
  The entries of a matrix are a type parameter of the model: the constructor, the index
  arithmetic, slicing and transposition store and move them and never compute with them.
  Where the code computes with entries, the results below are stated for entries in
  \<open>number\<close> (finite numbers with exact arithmetic) or in \<open>js_number\<close>, which adds the two
  infinities and NaN with the rules of JavaScript for them: NaN is absorbing, the sum of
  the two infinities is NaN, and an infinity times zero is NaN. Rounding and the sign of
  zero are outside the model.
\<close>

datatype js_number = Finite real | Infinity | MinusInfinity | NaN

fun js_neg :: "js_number \<Rightarrow> js_number" where
  "js_neg (Finite a) = Finite (- a)"
| "js_neg Infinity = MinusInfinity"
| "js_neg MinusInfinity = Infinity"
| "js_neg NaN = NaN"

fun js_add :: "js_number \<Rightarrow> js_number \<Rightarrow> js_number" where
  "js_add (Finite a) (Finite b) = Finite (a + b)"
| "js_add NaN y = NaN"
| "js_add x NaN = NaN"
| "js_add Infinity MinusInfinity = NaN"
| "js_add MinusInfinity Infinity = NaN"
| "js_add Infinity y = Infinity"
| "js_add x Infinity = Infinity"
| "js_add MinusInfinity y = MinusInfinity"
| "js_add x MinusInfinity = MinusInfinity"

fun js_mul :: "js_number \<Rightarrow> js_number \<Rightarrow> js_number" where
  "js_mul (Finite a) (Finite b) = Finite (a * b)"
| "js_mul NaN y = NaN"
| "js_mul x NaN = NaN"
| "js_mul (Finite a) y = (if a = 0 then NaN else if 0 < a then y else js_neg y)"
| "js_mul x (Finite b) = (if b = 0 then NaN else if 0 < b then x else js_neg x)"
| "js_mul Infinity Infinity = Infinity"
| "js_mul MinusInfinity MinusInfinity = Infinity"
| "js_mul Infinity MinusInfinity = MinusInfinity"
| "js_mul MinusInfinity Infinity = MinusInfinity"


text \<open>The number 0 and the operators \<^verbatim>\<open>+\<close> and \<^verbatim>\<open>*\<close> on \<open>js_number\<close>.\<close>

instantiation js_number :: "{zero, plus, times}"
begin

definition zero_js_number :: js_number where
  "zero_js_number = Finite 0"

definition plus_js_number :: "js_number \<Rightarrow> js_number \<Rightarrow> js_number" where
  "plus_js_number = js_add"

definition times_js_number :: "js_number \<Rightarrow> js_number \<Rightarrow> js_number" where
  "times_js_number = js_mul"

instance ..

end

text \<open>The three kinds of error the module throws, and a fourth for an error thrown by a
  callback the caller passes in.\<close>

datatype error = ValueError | RangeError | TypeError | CallbackError

type_synonym 'a result = "error + 'a"

definition bind_result :: "'a result \<Rightarrow> ('a \<Rightarrow> 'b result) \<Rightarrow> 'b result" where
  "bind_result r f = (case r of Inl e \<Rightarrow> Inl e | Inr x \<Rightarrow> f x)"

text \<open>The remainder operator \<^verbatim>\<open>a % b\<close> of JavaScript: the quotient is truncated towards
  zero, so the result has the sign of \<open>a\<close>. (For \<open>b = 0\<close> JavaScript gives NaN; the code never
  divides by zero on the paths modelled here.)\<close>

definition trunc :: "number \<Rightarrow> int" where
  "trunc x = (if x < 0 then \<lceil>x\<rceil> else \<lfloor>x\<rfloor>)"

definition js_rem :: "number \<Rightarrow> number \<Rightarrow> number" where
  "js_rem a b = a - b * of_int (trunc (a / b))"

text \<open>\<^verbatim>\<open>mod(a, b)\<close>: the unsigned modulus \<^verbatim>\<open>((a % b) + b) % b\<close>.\<close>

definition mod_js :: "number \<Rightarrow> number \<Rightarrow> number" where
  "mod_js a b = js_rem (js_rem a b + b) b"

text \<open>The values \<open>0, 1, 2, ...\<close> a counting loop \<^verbatim>\<open>for (let i = 0; i < n; i++)\<close> runs through:
  an integer \<open>i\<close> is below \<open>n\<close> exactly when it is below the ceiling of \<open>n\<close>.\<close>

definition count_to :: "number \<Rightarrow> nat list" where
  "count_to n = [0..<nat \<lceil>n\<rceil>]"

section \<open>Matrix\<close>

record 'a Matrix =
  dim :: "number list"
  data :: "'a list"

text \<open>The loop of the constructor over the dimensions: each must be positive and
  integral, and their product is the expected data length.\<close>

fun dim_product :: "number list \<Rightarrow> number \<Rightarrow> number result" where
  "dim_product [] len = Inr len"
| "dim_product (d # ds) len =
     (if d \<le> 0 then Inl ValueError
      else if js_rem d 1 \<noteq> 0 then Inl ValueError
      else dim_product ds (len * d))"

text \<open>\<^verbatim>\<open>new Array(length).fill(0)\<close>; an array length is an integer below \<open>2^32\<close>.\<close>

definition zero_data :: "number \<Rightarrow> 'a::zero list result" where
  "zero_data len =
     (if len < 0 \<or> len > 2 ^ 32 - 1 \<or> js_rem len 1 \<noteq> 0 then Inl RangeError
      else Inr (replicate (nat \<lfloor>len\<rfloor>) 0))"

definition Matrix_new :: "number list \<Rightarrow> 'a list option \<Rightarrow> 'a::zero Matrix result" where
  "Matrix_new dm dt =
     (if length dm \<le> 0 then Inl ValueError
      else bind_result (dim_product dm 1) (\<lambda>len.
        bind_result (case dt of Some xs \<Rightarrow> Inr xs | None \<Rightarrow> zero_data len) (\<lambda>xs.
          if real (length xs) \<noteq> len then Inl ValueError
          else Inr \<lparr>dim = dm, data = xs\<rparr>)))"

definition copy :: "'a::zero Matrix \<Rightarrow> 'a Matrix result" where
  "copy this = Matrix_new (dim this) (Some (data this))"

definition shape :: "'a Matrix \<Rightarrow> number list" where
  "shape this = dim this"

definition reshape :: "'a::zero Matrix \<Rightarrow> number list \<Rightarrow> 'a Matrix result" where
  "reshape this dm = Matrix_new dm (Some (data this))"

definition is2D :: "'a Matrix \<Rightarrow> bool" where
  "is2D this = (length (dim this) = 2)"

definition isSquare :: "'a Matrix \<Rightarrow> bool" where
  "isSquare this = (is2D this \<and> dim this ! 0 = dim this ! 1)"

definition isVector :: "'a Matrix \<Rightarrow> bool" where
  "isVector this = (is2D this \<and> dim this ! 1 = 1)"


subsection \<open>Index mapping\<close>

text \<open>The loop of \<^verbatim>\<open>getIndex\<close> over the axes, \<open>dataI\<close> accumulated left to right. It is
  entered only when \<open>indices\<close> and \<open>dim\<close> have the same length.\<close>

fun getIndex_loop :: "number list \<Rightarrow> number list \<Rightarrow> number \<Rightarrow> number result" where
  "getIndex_loop (axis # axes) (index # indices) dataI =
     (if js_rem index 1 \<noteq> 0 then Inl ValueError
      else if index < - axis then Inl RangeError
      else if index \<ge> axis then Inl RangeError
      else getIndex_loop axes indices
             (dataI * axis + (index + axis * (if index < 0 then 1 else 0))))"
| "getIndex_loop _ _ dataI = Inr dataI"

definition getIndex :: "'a Matrix \<Rightarrow> number list \<Rightarrow> number result" where
  "getIndex this indices =
     (if length indices \<noteq> length (dim this) then Inl ValueError
      else getIndex_loop (dim this) indices 0)"

fun getIndices_loop :: "number list \<Rightarrow> number \<Rightarrow> number \<Rightarrow> number list" where
  "getIndices_loop [] len index = []"
| "getIndices_loop (axis # axes) len index =
     (let len' = len / axis
      in of_int \<lfloor>index / len'\<rfloor> # getIndices_loop axes len' (js_rem index len'))"

definition getIndices :: "'a Matrix \<Rightarrow> number \<Rightarrow> number list result" where
  "getIndices this index =
     (if index < 0 \<or> index \<ge> real (length (data this)) then Inl RangeError
      else if js_rem index 1 \<noteq> 0 then Inl ValueError
      else Inr (getIndices_loop (dim this) (real (length (data this))) index))"

subsection \<open>Access\<close>

text \<open>A flat offset that \<^verbatim>\<open>getIndex\<close> returns is a natural number below the data length
  whenever the matrix came out of the constructor, so the read below is in range.\<close>

definition get :: "'a Matrix \<Rightarrow> number list \<Rightarrow> 'a result" where
  "get this indices =
     bind_result (getIndex this indices) (\<lambda>i. Inr (data this ! nat \<lfloor>i\<rfloor>))"

text \<open>
  A method that works in place is a function from the receiver to the outcome of the call
  (\<open>Inl\<close> the error thrown) paired with the receiver as the call leaves it.
\<close>

type_synonym 'a in_place = "unit result \<times> 'a Matrix"

definition set_m :: "'a Matrix \<Rightarrow> 'a \<Rightarrow> number list \<Rightarrow> 'a in_place" where
  "set_m this v indices =
     (case getIndex this indices of
        Inl e \<Rightarrow> (Inl e, this)
      | Inr i \<Rightarrow> (Inr (), this\<lparr>data := (data this)[nat \<lfloor>i\<rfloor> := v]\<rparr>))"

definition fill :: "'a Matrix \<Rightarrow> 'a \<Rightarrow> 'a in_place" where
  "fill this v = (Inr (), this\<lparr>data := replicate (length (data this)) v\<rparr>)"

text \<open>\<^verbatim>\<open>withMap\<close>: position \<open>i\<close> is overwritten as soon as the callback has returned for it.
  The callback is the caller's code and may throw.\<close>

function withMap_loop ::
  "('a \<Rightarrow> number list \<Rightarrow> 'a result) \<Rightarrow> 'a Matrix \<Rightarrow> nat \<Rightarrow> 'a in_place" where
  "withMap_loop callback this i =
     (if i < length (data this) then
        (case getIndices this (real i) of
           Inl e \<Rightarrow> (Inl e, this)
         | Inr ix \<Rightarrow>
             (case callback (data this ! i) ix of
                Inl e \<Rightarrow> (Inl e, this)
              | Inr v \<Rightarrow> withMap_loop callback (this\<lparr>data := (data this)[i := v]\<rparr>) (i + 1)))
      else (Inr (), this))"
  by pat_completeness auto
termination
  by (relation "measure (\<lambda>(callback, this, i). length (data this) - i)") auto

definition withMap :: "'a Matrix \<Rightarrow> ('a \<Rightarrow> number list \<Rightarrow> 'a result) \<Rightarrow> 'a in_place" where
  "withMap this callback = withMap_loop callback this 0"

subsection \<open>Transpose\<close>

text \<open>The first error of a sequence of computations, or all their values.\<close>

fun collect :: "'a result list \<Rightarrow> 'a list result" where
  "collect [] = Inr []"
| "collect (r # rs) = bind_result r (\<lambda>x. bind_result (collect rs) (\<lambda>xs. Inr (x # xs)))"

text \<open>\<^verbatim>\<open>transpose\<close> fills \<open>newData\<close> column by column and copies it back over \<open>data\<close>;
  \<open>dim\<close> is left as it is.\<close>

definition transpose_m :: "'a Matrix \<Rightarrow> 'a in_place" where
  "transpose_m this =
     (if \<not> is2D this then (Inl TypeError, this)
      else
        (case collect (concat (map (\<lambda>x. map (\<lambda>y. get this [real y, real x])
                                             (count_to (dim this ! 0)))
                                   (count_to (dim this ! 1)))) of
           Inl e \<Rightarrow> (Inl e, this)
         | Inr newData \<Rightarrow>
             (Inr (), this\<lparr>data := map (\<lambda>i. newData ! i) [0..<length (data this)]\<rparr>)))"

definition toTransposed :: "'a::zero Matrix \<Rightarrow> 'a Matrix result" where
  "toTransposed this =
     bind_result (copy this) (\<lambda>c.
       case transpose_m c of (Inl e, c') \<Rightarrow> Inl e | (Inr u, c') \<Rightarrow> Inr c')"

subsection \<open>Slicing\<close>

text \<open>A range argument of \<^verbatim>\<open>slice\<close>: a number, \<^verbatim>\<open>[start, stop]\<close> or
  \<^verbatim>\<open>[start, stop, step]\<close>. After the checks every range is a number or a full triple.\<close>

datatype range = Index number | Pair number number | Triple number number number

datatype checked = CIndex number | CRange number number number

definition check_bounds ::
  "number \<Rightarrow> number \<Rightarrow> number \<Rightarrow> number option \<Rightarrow> (checked \<times> number) result" where
  "check_bounds axis start0 stop0 step0 =
     (if js_rem start0 1 \<noteq> 0 then Inl ValueError
      else if start0 < - axis then Inl RangeError
      else if start0 \<ge> axis then Inl RangeError
      else
        let start = start0 + axis * (if start0 < 0 then 1 else 0) in
        if js_rem stop0 1 \<noteq> 0 then Inl ValueError
        else if stop0 < - axis then Inl RangeError
        else if stop0 > axis then Inl RangeError
        else
          let stop = stop0 + axis * (if stop0 < 0 then 1 else 0);
              step = (case step0 of Some s \<Rightarrow> s | None \<Rightarrow> if stop > start then 1 else - 1) in
          if js_rem step 1 \<noteq> 0 then Inl ValueError
          else if step = 0 then Inl ValueError
          else if start < stop \<and> step < 0 then Inl ValueError
          else if stop < start \<and> step > 0 then Inl ValueError
          else Inr (CRange start stop step, of_int \<lfloor>\<bar>start - stop\<bar> / step\<rfloor>))"

text \<open>One round of the checking loop of \<^verbatim>\<open>slice\<close>: the range as it is stored back into
  \<open>ranges\<close>, and the entry pushed onto \<open>newDim\<close>.\<close>

fun check_range :: "number \<Rightarrow> range \<Rightarrow> (checked \<times> number) result" where
  "check_range axis (Index r) =
     (if r < 0 \<or> r \<ge> axis then Inl RangeError
      else if js_rem r 1 \<noteq> 0 then Inl ValueError
      else Inr (CIndex r, 1))"
| "check_range axis (Pair start stop) = check_bounds axis start stop None"
| "check_range axis (Triple start stop step) = check_bounds axis start stop (Some step)"

fun check_ranges :: "number list \<Rightarrow> range list \<Rightarrow> (checked list \<times> number list) result" where
  "check_ranges (axis # axes) (r # rs) =
     bind_result (check_range axis r) (\<lambda>(c, d).
       bind_result (check_ranges axes rs) (\<lambda>(cs, ds). Inr (c # cs, d # ds)))"
| "check_ranges _ _ = Inr ([], [])"

text \<open>The indices the two loops of \<open>dfs\<close> visit. The checks leave \<open>0 < step\<close> where
  \<open>start < stop\<close> and \<open>step < 0\<close> where \<open>stop < start\<close>; the test of the step's sign is
  what makes the recursion total, and is true wherever \<^verbatim>\<open>slice\<close> reaches the loop.\<close>

function loop_up :: "number \<Rightarrow> number \<Rightarrow> number \<Rightarrow> number list" where
  "loop_up index stop step =
     (if index < stop \<and> 0 < step then index # loop_up (index + step) stop step else [])"
  by pat_completeness auto
termination
proof (relation "measure (\<lambda>(index, stop, step). nat \<lceil>(stop - index) / step\<rceil>)")
  show "wf (measure (\<lambda>(index, stop, step). nat \<lceil>(stop - index) / step\<rceil>))"
    by simp
next
  fix index stop step :: real
  assume a: "index < stop \<and> 0 < step"
  then have "(stop - (index + step)) / step = (stop - index) / step - 1"
    by (simp add: field_simps)
  then have "\<lceil>(stop - (index + step)) / step\<rceil> = \<lceil>(stop - index) / step\<rceil> - 1"
    by simp
  moreover have "0 < \<lceil>(stop - index) / step\<rceil>" using a by simp
  ultimately have "nat \<lceil>(stop - (index + step)) / step\<rceil> < nat \<lceil>(stop - index) / step\<rceil>"
    by linarith
  then show "((index + step, stop, step), index, stop, step)
      \<in> measure (\<lambda>(index, stop, step). nat \<lceil>(stop - index) / step\<rceil>)"
    by simp
qed

function loop_down :: "number \<Rightarrow> number \<Rightarrow> number \<Rightarrow> number list" where
  "loop_down index stop step =
     (if index > stop \<and> step < 0 then index # loop_down (index + step) stop step else [])"
  by pat_completeness auto
termination
proof (relation "measure (\<lambda>(index, stop, step). nat \<lceil>(index - stop) / (- step)\<rceil>)")
  show "wf (measure (\<lambda>(index, stop, step). nat \<lceil>(index - stop) / (- step)\<rceil>))"
    by simp
next
  fix index stop step :: real
  assume a: "stop < index \<and> step < 0"
  then have "(index + step - stop) / (- step) = (index - stop) / (- step) - 1"
    by (simp add: field_simps)
  then have "\<lceil>(index + step - stop) / (- step)\<rceil> = \<lceil>(index - stop) / (- step)\<rceil> - 1"
    by simp
  moreover have "0 < \<lceil>(index - stop) / (- step)\<rceil>"
    using a by (simp add: divide_less_0_iff)
  ultimately have "nat \<lceil>(index + step - stop) / (- step)\<rceil>
      < nat \<lceil>(index - stop) / (- step)\<rceil>"
    by linarith
  then show "((index + step, stop, step), index, stop, step)
      \<in> measure (\<lambda>(index, stop, step). nat \<lceil>(index - stop) / (- step)\<rceil>)"
    by (simp del: minus_divide_right divide_minus_right)
qed

text \<open>The equations of the loops are unfolded by hand where a proof needs them.\<close>

declare withMap_loop.simps [simp del] loop_up.simps [simp del] loop_down.simps [simp del]

definition concat_results :: "'a list result list \<Rightarrow> 'a list result" where
  "concat_results rs = bind_result (collect rs) (\<lambda>xss. Inr (concat xss))"

text \<open>\<open>dfs i\<close> with the ranges from position \<open>i\<close> on; the result is what the call pushes
  onto \<open>newData\<close>.\<close>

fun dfs :: "'a Matrix \<Rightarrow> nat \<Rightarrow> checked list \<Rightarrow> number list \<Rightarrow> 'a list result" where
  "dfs this i [] indices = bind_result (get this indices) (\<lambda>v. Inr [v])"
| "dfs this i (CIndex r # rs) indices = dfs this (i + 1) rs (indices[i := r])"
| "dfs this i (CRange start stop step # rs) indices =
     concat_results
       (map (\<lambda>index. dfs this (i + 1) rs (indices[i := index]))
            (if start < stop then loop_up start stop step else loop_down start stop step))"

text \<open>The loop that fills up the ranges:
  \<^verbatim>\<open>while (ranges.length < this.dim.length) ranges.push([0, this.dim[ranges.length]])\<close>.\<close>

definition pad_ranges :: "'a Matrix \<Rightarrow> range list \<Rightarrow> range list" where
  "pad_ranges this ranges =
     ranges @ map (\<lambda>j. Pair 0 (dim this ! j)) [length ranges..<length (dim this)]"

definition slice :: "'a::zero Matrix \<Rightarrow> range list \<Rightarrow> 'a Matrix result" where
  "slice this ranges =
     (if length ranges > length (dim this) then Inl ValueError
      else
        let ranges' = pad_ranges this ranges
        in bind_result (check_ranges (dim this) ranges') (\<lambda>(cs, newDim).
             bind_result (dfs this 0 cs (replicate (length (dim this)) 0)) (\<lambda>newData.
               Matrix_new newDim (Some newData))))"

subsection \<open>Identity\<close>

text \<open>\<^verbatim>\<open>identity(size)\<close>: the entries \<^verbatim>\<open>+(y === x)\<close>, pushed row by row.\<close>

definition identity :: "number \<Rightarrow> 'a::{zero,one} Matrix result" where
  "identity sz =
     Matrix_new [sz, sz]
       (Some (concat (map (\<lambda>y. map (\<lambda>x. if y = x then 1 else 0) (count_to sz))
                          (count_to sz))))"

subsection \<open>Elementwise and scalar arithmetic in place\<close>

text \<open>The shape test shared by \<^verbatim>\<open>add\<close>, \<^verbatim>\<open>withAdd\<close>, \<^verbatim>\<open>sub\<close> and \<^verbatim>\<open>withSub\<close>: the
  same number of axes, then the same size on every axis.\<close>

definition same_shape :: "'a Matrix \<Rightarrow> 'a Matrix \<Rightarrow> unit result" where
  "same_shape this mat =
     (if length (dim this) \<noteq> length (dim mat) then Inl TypeError
      else if list_ex (\<lambda>i. dim this ! i \<noteq> dim mat ! i) [0..<length (dim this)]
        then Inl TypeError
      else Inr ())"

definition withAdd :: "'a::plus Matrix \<Rightarrow> 'a Matrix \<Rightarrow> 'a in_place" where
  "withAdd this mat =
     (case same_shape this mat of
        Inl e \<Rightarrow> (Inl e, this)
      | Inr u \<Rightarrow>
          (Inr (), this\<lparr>data := map (\<lambda>i. data this ! i + data mat ! i)
                                    [0..<length (data this)]\<rparr>))"

definition withSub :: "'a::minus Matrix \<Rightarrow> 'a Matrix \<Rightarrow> 'a in_place" where
  "withSub this mat =
     (case same_shape this mat of
        Inl e \<Rightarrow> (Inl e, this)
      | Inr u \<Rightarrow>
          (Inr (), this\<lparr>data := map (\<lambda>i. data this ! i - data mat ! i)
                                    [0..<length (data this)]\<rparr>))"

definition withAddScalar :: "'a::plus Matrix \<Rightarrow> 'a \<Rightarrow> 'a in_place" where
  "withAddScalar this a = withMap this (\<lambda>v ix. Inr (v + a))"

definition withSubScalar :: "'a::minus Matrix \<Rightarrow> 'a \<Rightarrow> 'a in_place" where
  "withSubScalar this a = withMap this (\<lambda>v ix. Inr (v - a))"

definition withMulScalar :: "'a::times Matrix \<Rightarrow> 'a \<Rightarrow> 'a in_place" where
  "withMulScalar this a = (Inr (), this\<lparr>data := map (\<lambda>v. v * a) (data this)\<rparr>)"

subsection \<open>Determinant\<close>

text \<open>The inner loop of \<^verbatim>\<open>det\<close> over the rows \<open>i\<close>, for one starting column: \<open>add\<close> is the
  product down the diagonal that wraps to the right, \<open>sub\<close> the one that wraps to the left.\<close>

fun det_diagonals ::
  "'a::times Matrix \<Rightarrow> number \<Rightarrow> nat \<Rightarrow> nat list \<Rightarrow> 'a \<times> 'a \<Rightarrow> ('a \<times> 'a) result" where
  "det_diagonals this sz col [] (add, sub) = Inr (add, sub)"
| "det_diagonals this sz col (i # rows) (add, sub) =
     bind_result (get this [real i, mod_js (real col + real i) sz]) (\<lambda>a.
       bind_result (get this [real i, mod_js (real col - real i) sz]) (\<lambda>s.
         det_diagonals this sz col rows (add * a, sub * s)))"

text \<open>The outer loop over the starting columns.\<close>

fun det_columns ::
  "'a::{one,plus,minus,times} Matrix \<Rightarrow> number \<Rightarrow> nat list \<Rightarrow> 'a \<Rightarrow> 'a result" where
  "det_columns this sz [] sm = Inr sm"
| "det_columns this sz (col # cols) sm =
     bind_result (det_diagonals this sz col (count_to sz) (1, 1)) (\<lambda>(add, sub).
       det_columns this sz cols (sm + (add - sub)))"

definition det :: "'a::{zero,one,plus,minus,times} Matrix \<Rightarrow> 'a result" where
  "det this =
     (if \<not> is2D this then Inl TypeError
      else if \<not> isSquare this then Inl TypeError
      else
        let sz = dim this ! 0 in
        if sz = 1 then Inr (data this ! 0)
        else if sz = 2 then Inr (data this ! 0 * data this ! 3 - data this ! 1 * data this ! 2)
        else det_columns this sz (count_to sz) 0)"

section \<open>Vec\<close>

text \<open>A \<^verbatim>\<open>Vec\<close> is a matrix of shape \<open>[size, 1]\<close>; the class adds no field. Its type
  parameter allows the sizes 2, 3 and 4.\<close>

definition Vec_new :: "number \<Rightarrow> 'a list \<Rightarrow> 'a::zero Matrix result" where
  "Vec_new sz dt = Matrix_new [sz, 1] (Some dt)"

definition Vec_isVec :: "number \<Rightarrow> 'a Matrix \<Rightarrow> bool" where
  "Vec_isVec sz mat = (isVector mat \<and> shape mat ! 0 = sz)"

text \<open>The static \<^verbatim>\<open>Vec.toVec(size, mat)\<close>: the leading entries of \<open>mat\<close>, then zeros pushed
  until the length reaches \<open>size\<close>.\<close>

definition Vec_toVec :: "number \<Rightarrow> 'a::zero Matrix \<Rightarrow> 'a Matrix result" where
  "Vec_toVec sz mat =
     (if \<not> isVector mat then Inl ValueError
      else
        bind_result (collect (map (\<lambda>i. get mat [real i, 0])
                                  (count_to (min sz (shape mat ! 0))))) (\<lambda>dt.
          Vec_new sz (dt @ replicate (nat \<lceil>sz - real (length dt)\<rceil>) 0)))"

definition size_v :: "'a Matrix \<Rightarrow> number" where
  "size_v this = dim this ! 0"

definition isVec :: "'a Matrix \<Rightarrow> 'a Matrix \<Rightarrow> bool" where
  "isVec this mat = Vec_isVec (size_v this) mat"

definition toVec :: "'a::zero Matrix \<Rightarrow> 'a Matrix \<Rightarrow> 'a Matrix result" where
  "toVec this mat = Vec_toVec (size_v this) mat"

definition magSquared :: "number Matrix \<Rightarrow> number" where
  "magSquared this = foldl (\<lambda>a b. a + b) 0 (map (\<lambda>v. v ^ 2) (data this))"

definition mag :: "number Matrix \<Rightarrow> number" where
  "mag this = sqrt (magSquared this)"

text \<open>The setters of the named axes: nothing happens when the vector is too short.\<close>

definition set_x :: "'a Matrix \<Rightarrow> 'a \<Rightarrow> 'a Matrix" where
  "set_x this v = (if size_v this < 1 then this else this\<lparr>data := (data this)[0 := v]\<rparr>)"

definition set_y :: "'a Matrix \<Rightarrow> 'a \<Rightarrow> 'a Matrix" where
  "set_y this v = (if size_v this < 2 then this else this\<lparr>data := (data this)[1 := v]\<rparr>)"

definition getAxis :: "'a Matrix \<Rightarrow> number \<Rightarrow> 'a result" where
  "getAxis this i =
     (if i < 0 \<or> i \<ge> size_v this then Inl RangeError
      else if js_rem i 1 \<noteq> 0 then Inl ValueError
      else Inr (data this ! nat \<lfloor>i\<rfloor>))"

definition unit :: "number Matrix \<Rightarrow> number in_place" where
  "unit this =
     (if magSquared this > 0 then withMulScalar this (1 / mag this) else (Inr (), this))"

fun dot_loop :: "'a::{plus,times} Matrix \<Rightarrow> 'a Matrix \<Rightarrow> nat list \<Rightarrow> 'a \<Rightarrow> 'a result" where
  "dot_loop this vec [] sm = Inr sm"
| "dot_loop this vec (i # rest) sm =
     bind_result (getAxis this (real i)) (\<lambda>a.
       bind_result (getAxis vec (real i)) (\<lambda>b.
         dot_loop this vec rest (sm + a * b)))"

definition dot :: "'a::{zero,plus,times} Matrix \<Rightarrow> 'a Matrix \<Rightarrow> 'a result" where
  "dot this mat =
     bind_result (toVec this mat) (\<lambda>vec. dot_loop this vec (count_to (size_v this)) 0)"

text \<open>\<^verbatim>\<open>withProject\<close>. (Where \<open>magSquared\<close> is 0 the quotient is NaN or infinite in
  JavaScript and 0 here; no error is thrown either way.)\<close>

definition withProject :: "number Matrix \<Rightarrow> number Matrix \<Rightarrow> number in_place" where
  "withProject this mat =
     (case toVec this mat of
        Inl e \<Rightarrow> (Inl e, this)
      | Inr vec \<Rightarrow>
          (case dot this vec of
             Inl e \<Rightarrow> (Inl e, this)
           | Inr d \<Rightarrow> withMulScalar this (d / magSquared this)))"

text \<open>\<^verbatim>\<open>rotate\<close> acts on vectors of size 2 only, where the getters \<open>x\<close> and \<open>y\<close> read
  \<open>data[0]\<close> and \<open>data[1]\<close>.\<close>

definition rotate :: "number Matrix \<Rightarrow> number \<Rightarrow> number in_place" where
  "rotate this angle =
     (if size_v this \<noteq> 2 then (Inr (), this)
      else
        let x = data this ! 0; angleX = angle;
            y = data this ! 1; angleY = angle + 90;
            xX = x * cos (angleX * pi / 180);
            xY = x * sin (angleX * pi / 180);
            yX = y * cos (angleY * pi / 180);
            yY = y * sin (angleY * pi / 180)
        in (Inr (), set_y (set_x this (xX + yX)) (xY + yY)))"

subsection \<open>What a checked range selects\<close>

text \<open>The indices \<open>dfs\<close> visits on one axis, and the checked ranges that run upwards inside
  the axis: the ones the results about \<^verbatim>\<open>slice\<close> below are stated for.\<close>

fun visited :: "checked \<Rightarrow> number list" where
  "visited (CIndex r) = [r]"
| "visited (CRange start stop step) =
     (if start < stop then loop_up start stop step else loop_down start stop step)"

fun ascending :: "number \<Rightarrow> checked \<Rightarrow> bool" where
  "ascending axis (CIndex r) = (r \<in> \<int> \<and> 0 \<le> r \<and> r < axis)"
| "ascending axis (CRange start stop step) =
     (start \<in> \<int> \<and> step \<in> \<int> \<and> 0 \<le> start \<and> start < stop \<and> stop \<le> axis \<and> 0 < step)"

subsection \<open>The ranges a slice call may be given\<close>

text \<open>
  The conditions under which a range is valid for an axis of length \<open>axis\<close>, in the words
  of the specification rather than as the checking loop computes them: a single index is
  integral and in \<open>[0, axis)\<close>; the bounds of a range are integral, the start in
  \<open>[-axis, axis)\<close> and the stop in \<open>[-axis, axis]\<close>, a negative bound counting from the end;
  a step that is given is integral, not zero, and of the sign of the way from start to stop.
\<close>

definition from_end :: "number \<Rightarrow> number \<Rightarrow> number" where
  "from_end axis b = (if b < 0 then b + axis else b)"

fun valid_range :: "number \<Rightarrow> range \<Rightarrow> bool" where
  "valid_range axis (Index r) = (js_rem r 1 = 0 \<and> 0 \<le> r \<and> r < axis)"
| "valid_range axis (Pair start stop) =
     (js_rem start 1 = 0 \<and> - axis \<le> start \<and> start < axis
      \<and> js_rem stop 1 = 0 \<and> - axis \<le> stop \<and> stop \<le> axis)"
| "valid_range axis (Triple start stop step) =
     (js_rem start 1 = 0 \<and> - axis \<le> start \<and> start < axis
      \<and> js_rem stop 1 = 0 \<and> - axis \<le> stop \<and> stop \<le> axis
      \<and> js_rem step 1 = 0 \<and> step \<noteq> 0
      \<and> (from_end axis start < from_end axis stop \<longrightarrow> 0 < step)
      \<and> (from_end axis stop < from_end axis start \<longrightarrow> step < 0))"

text \<open>A valid range with its bounds counted from the front and its step written out: the
  step is \<open>+1\<close> if the stop lies after the start, else \<open>-1\<close>, when none is given.\<close>

fun normalised :: "number \<Rightarrow> range \<Rightarrow> checked" where
  "normalised axis (Index r) = CIndex r"
| "normalised axis (Pair start stop) =
     CRange (from_end axis start) (from_end axis stop)
       (if from_end axis stop > from_end axis start then 1 else - 1)"
| "normalised axis (Triple start stop step) =
     CRange (from_end axis start) (from_end axis stop) step"

text \<open>The length the specification gives the axis of the result:
  \<open>floor(|start - stop| / |step|)\<close> for a range, 1 for a single index.\<close>

fun axis_length :: "checked \<Rightarrow> number" where
  "axis_length (CIndex r) = 1"
| "axis_length (CRange start stop step) = of_int \<lfloor>\<bar>start - stop\<bar> / \<bar>step\<bar>\<rfloor>"

text \<open>A range that runs upwards by a step dividing its length, and a range that is empty.\<close>

fun steps_up :: "checked \<Rightarrow> bool" where
  "steps_up (CIndex r) = True"
| "steps_up (CRange start stop step) = (start < stop \<and> js_rem ((stop - start) / step) 1 = 0)"

fun empty_range :: "checked \<Rightarrow> bool" where
  "empty_range (CIndex r) = False"
| "empty_range (CRange start stop step) = (start = stop)"

section \<open>An input for \<^verbatim>\<open>withMap\<close>\<close>

text \<open>A callback is the caller's function and may throw. This one is
  \<^verbatim>\<open>(value, [i]) => { if (i === 1) throw new Error(); return value + 10; }\<close>
  on a matrix of one axis.\<close>

definition throwing_callback :: "number \<Rightarrow> number list \<Rightarrow> number result" where
  "throwing_callback v indices = (if indices = [1] then Inl CallbackError else Inr (v + 10))"

section \<open>Facts about numbers\<close>

lemma js_rem_one_iff: "js_rem x 1 = 0 \<longleftrightarrow> x \<in> \<int>"
proof
  assume "js_rem x 1 = 0"
  then have "x = of_int (trunc x)" by (simp add: js_rem_def)
  then show "x \<in> \<int>" by (metis Ints_of_int)
next
  assume "x \<in> \<int>"
  then obtain k :: int where "x = of_int k" by (auto elim: Ints_cases)
  then show "js_rem x 1 = 0" by (simp add: js_rem_def trunc_def)
qed

section \<open>The constructor\<close>

lemma dim_product_Inr:
  "dim_product ds len = Inr r \<longleftrightarrow>
     (\<forall>d \<in> set ds. 0 < d \<and> d \<in> \<int>) \<and> r = len * prod_list ds"
  by (induction ds arbitrary: len) (auto simp: js_rem_one_iff mult.assoc)

lemma dim_product_Inl: "dim_product ds len = Inl e \<Longrightarrow> e = ValueError"
  by (induction ds arbitrary: len) (auto split: if_splits)

lemma Matrix_new_Some_Inr:
  "Matrix_new dm (Some xs) = Inr m \<longleftrightarrow>
     dm \<noteq> [] \<and> (\<forall>d \<in> set dm. 0 < d \<and> d \<in> \<int>) \<and> real (length xs) = prod_list dm
       \<and> m = \<lparr>dim = dm, data = xs\<rparr>"
proof (cases "dim_product dm 1")
  case (Inl e)
  then have "\<not> ((\<forall>d \<in> set dm. 0 < d \<and> d \<in> \<int>))"
    using dim_product_Inr [of dm 1] by (metis Inl_Inr_False)
  with Inl show ?thesis by (auto simp: Matrix_new_def bind_result_def)
next
  case (Inr r)
  then have "(\<forall>d \<in> set dm. 0 < d \<and> d \<in> \<int>) \<and> r = prod_list dm"
    using dim_product_Inr [of dm 1 r] by simp
  with Inr show ?thesis by (auto simp: Matrix_new_def bind_result_def)
qed

lemma Matrix_new_Some_Inl: "Matrix_new dm (Some xs) = Inl e \<Longrightarrow> e = ValueError"
  by (auto simp: Matrix_new_def bind_result_def split: if_splits sum.splits
      dest: dim_product_Inl)

section \<open>Reshape\<close>

text \<open>
  C9. \<^verbatim>\<open>reshape(dim')\<close> succeeds exactly when \<open>dim'\<close> is a non-empty list of positive
  integers whose product is the number of elements of the receiver; the result then has
  the shape \<open>dim'\<close> and the receiver's flat data in the same order. In every other case an
  invalid-value error is raised. The function reads the receiver and builds a new value,
  so the receiver is as it was.
\<close>

theorem reshape_spec:
  "reshape this dm =
     (if dm \<noteq> [] \<and> (\<forall>d \<in> set dm. 0 < d \<and> d \<in> \<int>)
           \<and> prod_list dm = real (length (data this))
      then Inr \<lparr>dim = dm, data = data this\<rparr>
      else Inl ValueError)"
proof (cases "reshape this dm")
  case (Inl e)
  then have "e = ValueError"
    unfolding reshape_def by (rule Matrix_new_Some_Inl)
  moreover have "\<not> (dm \<noteq> [] \<and> (\<forall>d \<in> set dm. 0 < d \<and> d \<in> \<int>)
      \<and> prod_list dm = real (length (data this)))"
    using Inl Matrix_new_Some_Inr [of dm "data this" "\<lparr>dim = dm, data = data this\<rparr>"]
    by (auto simp: reshape_def)
  ultimately show ?thesis using Inl by simp
next
  case (Inr m)
  then show ?thesis
    using Matrix_new_Some_Inr [of dm "data this" m] by (auto simp: reshape_def)
qed

theorem reshape_spec_witness:
  "reshape \<lparr>dim = [2, 3], data = [0, 1, 2, 3, 4, 5 :: real]\<rparr> [3, 2]
     = Inr \<lparr>dim = [3, 2], data = [0, 1, 2, 3, 4, 5 :: real]\<rparr>
   \<and> reshape \<lparr>dim = [2, 3], data = [0, 1, 2, 3, 4, 5 :: real]\<rparr> [4, 2] = Inl ValueError
   \<and> reshape \<lparr>dim = [2, 3], data = [0, 1, 2, 3, 4, 5 :: real]\<rparr> [12, 1 / 2] = Inl ValueError"
  using reshape_spec [of "\<lparr>dim = [2, 3], data = [0, 1, 2, 3, 4, 5 :: real]\<rparr>" "[3, 2]"]
    reshape_spec [of "\<lparr>dim = [2, 3], data = [0, 1, 2, 3, 4, 5 :: real]\<rparr>" "[4, 2]"]
    reshape_spec [of "\<lparr>dim = [2, 3], data = [0, 1, 2, 3, 4, 5 :: real]\<rparr>" "[12, 1 / 2]"]
  by simp

section \<open>Transposing twice\<close>

text \<open>
  C1. Transposing a 2-D matrix twice should give the matrix back. \<^verbatim>\<open>transpose\<close> rewrites
  \<open>data\<close> column by column but never swaps the two entries of \<open>dim\<close>, so the second call
  reads the rearranged buffer with the old row length. On the 2 by 3 matrix with the data
  0, ..., 5 the two calls end with 0, 4, 3, 2, 1, 5, in place and through
  \<^verbatim>\<open>toTransposed\<close> alike.
\<close>

theorem transpose_twice_2x3:
  "Matrix_new [2, 3] (Some [0, 1, 2, 3, 4, 5]) = Inr \<lparr>dim = [2, 3], data = [0, 1, 2, 3, 4, 5 :: real]\<rparr>
   \<and> transpose_m \<lparr>dim = [2, 3], data = [0, 1, 2, 3, 4, 5 :: real]\<rparr>
       = (Inr (), \<lparr>dim = [2, 3], data = [0, 3, 1, 4, 2, 5 :: real]\<rparr>)
   \<and> transpose_m \<lparr>dim = [2, 3], data = [0, 3, 1, 4, 2, 5 :: real]\<rparr>
       = (Inr (), \<lparr>dim = [2, 3], data = [0, 4, 3, 2, 1, 5 :: real]\<rparr>)
   \<and> bind_result (toTransposed \<lparr>dim = [2, 3], data = [0, 1, 2, 3, 4, 5 :: real]\<rparr>) toTransposed
       = Inr \<lparr>dim = [2, 3], data = [0, 4, 3, 2, 1, 5 :: real]\<rparr>"
  by code_simp

section \<open>Slicing with a descending or a non-dividing range\<close>

text \<open>
  \<^verbatim>\<open>slice\<close> pushes \<open>floor(|start - stop| / step)\<close> onto \<open>newDim\<close>, with the signed step. A
  descending range passes every check (the step even defaults to \<open>-1\<close>) and gets a negative
  dimension, which the constructor rejects; a step that does not divide the distance
  selects one element more than the dimension pushed, and the constructor rejects the data
  length. On the 1-D matrix 0, 1, 2 the ranges \<open>[2, 0]\<close>, \<open>[2, 0, -1]\<close> and \<open>[0, 3, 2]\<close> all
  end in an invalid-value error.
\<close>

theorem slice_descending_fails:
  "Matrix_new [3] (Some [0, 1, 2]) = Inr \<lparr>dim = [3], data = [0, 1, 2 :: real]\<rparr>
   \<and> check_range 3 (Pair 2 0) = Inr (CRange 2 0 (- 1), - 2)
   \<and> slice \<lparr>dim = [3], data = [0, 1, 2 :: real]\<rparr> [Pair 2 0] = Inl ValueError
   \<and> slice \<lparr>dim = [3], data = [0, 1, 2 :: real]\<rparr> [Triple 2 0 (- 1)] = Inl ValueError
   \<and> check_range 3 (Triple 0 3 2) = Inr (CRange 0 3 2, 1)
   \<and> slice \<lparr>dim = [3], data = [0, 1, 2 :: real]\<rparr> [Triple 0 3 2] = Inl ValueError"
  by code_simp

section \<open>Index mapping: the two loops invert each other\<close>

lemma js_rem_nonneg: "0 \<le> a \<Longrightarrow> 0 < b \<Longrightarrow> js_rem a b = a - b * of_int \<lfloor>a / b\<rfloor>"
  by (simp add: js_rem_def trunc_def not_less [symmetric] divide_less_0_iff)

lemma js_rem_Ints: "a \<in> \<int> \<Longrightarrow> b \<in> \<int> \<Longrightarrow> js_rem a b \<in> \<int>"
  by (simp add: js_rem_def)

lemma floor_quotient_bounds:
  fixes a b :: real
  assumes "0 < b"
  shows "b * of_int \<lfloor>a / b\<rfloor> \<le> a" and "a < b * of_int \<lfloor>a / b\<rfloor> + b"
proof -
  have "of_int \<lfloor>a / b\<rfloor> \<le> a / b" by simp
  then show "b * of_int \<lfloor>a / b\<rfloor> \<le> a"
    using assms by (simp add: le_divide_eq mult.commute)
  have "a / b < of_int \<lfloor>a / b\<rfloor> + 1" by linarith
  then have "a < (of_int \<lfloor>a / b\<rfloor> + 1) * b"
    using assms by (simp only: pos_divide_less_eq)
  then show "a < b * of_int \<lfloor>a / b\<rfloor> + b" by (simp add: algebra_simps)
qed

lemma js_rem_bounds:
  assumes "0 \<le> a" "0 < b"
  shows "0 \<le> js_rem a b" and "js_rem a b < b"
  using floor_quotient_bounds [OF assms(2), of a] assms by (simp_all add: js_rem_nonneg)

lemma floor_split:
  fixes n P v :: real
  assumes "n \<in> \<int>" "0 < P" "0 \<le> v" "v < P"
  shows "of_int \<lfloor>(n * P + v) / P\<rfloor> = n"
proof -
  obtain k :: int where k: "n = of_int k" using assms(1) by (auto elim: Ints_cases)
  have "(n * P + v) / P = of_int k + v / P" using assms(2) k by (simp add: field_simps)
  moreover have "\<lfloor>v / P\<rfloor> = 0" using assms by (simp add: floor_eq_iff)
  ultimately show ?thesis using k by simp
qed

lemma prod_list_dims:
  "\<forall>d \<in> set ds. 0 < d \<and> d \<in> \<int> \<Longrightarrow> 0 < prod_list ds \<and> prod_list ds \<in> (\<int> :: real set)"
  by (induction ds) auto

lemma getIndex_getIndices_loop:
  assumes "\<forall>d \<in> set ds. 0 < d \<and> d \<in> \<int>" "0 \<le> f" "f < prod_list ds" "f \<in> \<int>"
  shows "getIndex_loop ds (getIndices_loop ds (prod_list ds) f) acc = Inr (acc * prod_list ds + f)"
  using assms
proof (induction ds arbitrary: f acc)
  case Nil
  then have "f = 0" by (auto elim!: Ints_cases)
  then show ?case by simp
next
  case (Cons d ds)
  define P where "P = prod_list ds"
  define q :: real where "q = of_int \<lfloor>f / P\<rfloor>"
  define r where "r = js_rem f P"
  have d: "0 < d" "d \<in> \<int>" and ds: "\<forall>d \<in> set ds. 0 < d \<and> d \<in> \<int>"
    using Cons.prems(1) by simp_all
  have P: "0 < P" "P \<in> \<int>" using prod_list_dims [OF ds] by (simp_all add: P_def)
  have f: "0 \<le> f" "f < d * P" "f \<in> \<int>" using Cons.prems by (simp_all add: P_def)
  have r: "0 \<le> r" "r < P" "r \<in> \<int>" "f = q * P + r"
    using js_rem_bounds [OF f(1) P(1)] js_rem_Ints [OF f(3) P(2)] js_rem_nonneg [OF f(1) P(1)]
    by (simp_all add: r_def q_def)
  have q: "q \<in> \<int>" "0 \<le> q" "q < d"
  proof -
    show "q \<in> \<int>" by (simp add: q_def)
    show "0 \<le> q" using f(1) P(1) by (simp add: q_def)
    have "q \<le> f / P" by (simp add: q_def)
    also have "f / P < d" using f(2) P(1) by (simp add: divide_less_eq)
    finally show "q < d" .
  qed
  have "getIndices_loop (d # ds) (prod_list (d # ds)) f = q # getIndices_loop ds P r"
    using d(1) by (simp add: P_def q_def r_def Let_def)
  moreover have "getIndex_loop (d # ds) (q # getIndices_loop ds P r) acc
      = getIndex_loop ds (getIndices_loop ds P r) (acc * d + q)"
    using q d by (simp add: js_rem_one_iff)
  moreover have "getIndex_loop ds (getIndices_loop ds P r) (acc * d + q)
      = Inr ((acc * d + q) * P + r)"
    unfolding P_def using ds r(1,2,3) unfolding P_def by (rule Cons.IH)
  ultimately show ?case using r(4) by (simp add: P_def algebra_simps)
qed

lemma getIndices_getIndex_loop:
  assumes "list_all2 (\<lambda>d i. i \<in> \<int> \<and> - d \<le> i \<and> i < d) ds idx"
    and "\<forall>d \<in> set ds. 0 < d \<and> d \<in> \<int>"
  shows "\<exists>v. getIndex_loop ds idx acc = Inr (acc * prod_list ds + v)
            \<and> 0 \<le> v \<and> v < prod_list ds \<and> v \<in> \<int>
            \<and> getIndices_loop ds (prod_list ds) v
                = map2 (\<lambda>axis i. if i < 0 then i + axis else i) ds idx"
  using assms
proof (induction ds idx arbitrary: acc rule: list_all2_induct)
  case Nil
  then show ?case by simp
next
  case (Cons d ds i idx)
  define P where "P = prod_list ds"
  define n where "n = (if i < 0 then i + d else i)"
  have d: "0 < d" "d \<in> \<int>" and ds: "\<forall>d \<in> set ds. 0 < d \<and> d \<in> \<int>"
    using Cons.prems by simp_all
  have P: "0 < P" "P \<in> \<int>" using prod_list_dims [OF ds] by (simp_all add: P_def)
  have i: "i \<in> \<int>" "- d \<le> i" "i < d" using Cons.hyps(1) by simp_all
  have n: "n \<in> \<int>" "0 \<le> n" "n \<le> d - 1"
  proof -
    show "n \<in> \<int>" using i(1) d(2) by (simp add: n_def)
    show "0 \<le> n" using i(2) by (simp add: n_def)
    obtain k j :: int where "n = of_int k" "d = of_int j"
      using \<open>n \<in> \<int>\<close> d(2) by (auto elim!: Ints_cases)
    moreover have "n < d" using i(3) d(1) by (simp add: n_def)
    ultimately show "n \<le> d - 1" by simp
  qed
  obtain v where v: "getIndex_loop ds idx (acc * d + n) = Inr ((acc * d + n) * P + v)"
    "0 \<le> v" "v < P" "v \<in> \<int>"
    "getIndices_loop ds P v = map2 (\<lambda>axis i. if i < 0 then i + axis else i) ds idx"
    using Cons.IH [OF ds, of "acc * d + n"] unfolding P_def by blast
  define w where "w = n * P + v"
  have "getIndex_loop (d # ds) (i # idx) acc = getIndex_loop ds idx (acc * d + n)"
    using i by (simp add: js_rem_one_iff n_def)
  moreover have "(acc * d + n) * P + v = acc * prod_list (d # ds) + w"
    by (simp add: w_def P_def algebra_simps)
  ultimately have "getIndex_loop (d # ds) (i # idx) acc = Inr (acc * prod_list (d # ds) + w)"
    using v(1) by simp
  moreover have "0 \<le> w" using n(2) P(1) v(2) by (simp add: w_def)
  moreover have "w < prod_list (d # ds)"
  proof -
    have "n * P \<le> (d - 1) * P" using n(3) P(1) by (simp add: mult_right_mono)
    then show ?thesis using v(3) by (simp add: w_def P_def algebra_simps)
  qed
  moreover have "w \<in> \<int>" using n(1) P(2) v(4) by (simp add: w_def)
  moreover have "getIndices_loop (d # ds) (prod_list (d # ds)) w
      = map2 (\<lambda>axis i. if i < 0 then i + axis else i) (d # ds) (i # idx)"
  proof -
    have q: "of_int \<lfloor>w / P\<rfloor> = n"
      unfolding w_def using n(1) P(1) v(2,3) by (rule floor_split)
    have "js_rem w P = v"
      using \<open>0 \<le> w\<close> P(1) q by (simp add: js_rem_nonneg w_def)
    then show ?thesis
      using d(1) q v(5) by (simp add: P_def [symmetric] Let_def n_def)
  qed
  ultimately show ?case by blast
qed

lemma zero_data_length: "zero_data len = Inr xs \<Longrightarrow> real (length xs) = len"
proof -
  assume a: "zero_data len = Inr xs"
  then have "0 \<le> len" "js_rem len 1 = 0" "xs = replicate (nat \<lfloor>len\<rfloor>) 0"
    by (auto simp: zero_data_def split: if_splits)
  moreover from this obtain k :: int where "len = of_int k"
    by (auto simp: js_rem_one_iff elim: Ints_cases)
  ultimately show ?thesis by simp
qed

lemma Matrix_new_invariant:
  assumes "Matrix_new dm dt = Inr m"
  shows "dim m = dm" and "dm \<noteq> []" and "\<forall>d \<in> set dm. 0 < d \<and> d \<in> \<int>"
    and "real (length (data m)) = prod_list dm"
proof -
  obtain len xs where l: "dim_product dm 1 = Inr len"
    and x: "(case dt of Some xs \<Rightarrow> Inr xs | None \<Rightarrow> zero_data len) = Inr xs"
    and m: "real (length xs) = len" "m = \<lparr>dim = dm, data = xs\<rparr>" and ne: "dm \<noteq> []"
    using assms by (auto simp: Matrix_new_def bind_result_def split: if_splits sum.splits)
  show "dim m = dm" using m by simp
  show "dm \<noteq> []" by (rule ne)
  show "\<forall>d \<in> set dm. 0 < d \<and> d \<in> \<int>" using l by (simp add: dim_product_Inr)
  show "real (length (data m)) = prod_list dm" using l m by (simp add: dim_product_Inr)
qed

lemma length_getIndices_loop: "length (getIndices_loop ds len f) = length ds"
  by (induction ds arbitrary: len f) (simp_all add: Let_def)

text \<open>
  C3. On a matrix that the constructor returned: for a multi-index of the right length
  whose components are integers in \<open>[-dim[j], dim[j])\<close>, \<^verbatim>\<open>getIndices(getIndex(idx))\<close> is
  \<open>idx\<close> with every negative component \<open>i\<close> replaced by \<open>i + dim[j]\<close>, hence \<open>idx\<close> itself
  when no component is negative; and for an integral flat offset \<open>f\<close> in
  \<open>[0, data.length)\<close>, \<^verbatim>\<open>getIndex(getIndices(f))\<close> is \<open>f\<close>.
\<close>

theorem index_roundtrip:
  assumes "Matrix_new dm dt = Inr m"
  shows "(length idx = length (dim m)
            \<and> (\<forall>j < length idx. idx ! j \<in> \<int> \<and> - (dim m ! j) \<le> idx ! j \<and> idx ! j < dim m ! j)
          \<longrightarrow> bind_result (getIndex m idx) (getIndices m)
                = Inr (map2 (\<lambda>axis i. if i < 0 then i + axis else i) (dim m) idx)
              \<and> ((\<forall>j < length idx. 0 \<le> idx ! j)
                  \<longrightarrow> bind_result (getIndex m idx) (getIndices m) = Inr idx))
       \<and> (f \<in> \<int> \<and> 0 \<le> f \<and> f < real (length (data m))
          \<longrightarrow> bind_result (getIndices m f) (getIndex m) = Inr f)"
proof (intro conjI impI)
  note inv = Matrix_new_invariant [OF assms]
  have ds: "\<forall>d \<in> set (dim m). 0 < d \<and> d \<in> \<int>" using inv by simp
  have len: "real (length (data m)) = prod_list (dim m)" using inv by simp
  {
    assume a: "length idx = length (dim m)
       \<and> (\<forall>j < length idx. idx ! j \<in> \<int> \<and> - (dim m ! j) \<le> idx ! j \<and> idx ! j < dim m ! j)"
    then have "list_all2 (\<lambda>d i. i \<in> \<int> \<and> - d \<le> i \<and> i < d) (dim m) idx"
      by (simp add: list_all2_conv_all_nth)
    from getIndices_getIndex_loop [OF this ds, of 0]
    obtain v where v: "getIndex_loop (dim m) idx 0 = Inr v" "0 \<le> v" "v < prod_list (dim m)"
      "v \<in> \<int>"
      "getIndices_loop (dim m) (prod_list (dim m)) v
         = map2 (\<lambda>axis i. if i < 0 then i + axis else i) (dim m) idx"
      by auto
    show r: "bind_result (getIndex m idx) (getIndices m)
        = Inr (map2 (\<lambda>axis i. if i < 0 then i + axis else i) (dim m) idx)"
      using a v len by (simp add: bind_result_def getIndex_def getIndices_def js_rem_one_iff)
    {
      assume "\<forall>j < length idx. 0 \<le> idx ! j"
      then have "map2 (\<lambda>axis i. if i < 0 then i + axis else i) (dim m) idx = idx"
        using a by (auto simp: list_eq_iff_nth_eq)
      then show "bind_result (getIndex m idx) (getIndices m) = Inr idx" using r by simp
    }
  }
  {
    assume a: "f \<in> \<int> \<and> 0 \<le> f \<and> f < real (length (data m))"
    then have "getIndices m f = Inr (getIndices_loop (dim m) (prod_list (dim m)) f)"
      using len by (simp add: getIndices_def js_rem_one_iff)
    moreover have "getIndex_loop (dim m) (getIndices_loop (dim m) (prod_list (dim m)) f) 0
        = Inr (0 * prod_list (dim m) + f)"
      using a len by (intro getIndex_getIndices_loop [OF ds]) simp_all
    ultimately show "bind_result (getIndices m f) (getIndex m) = Inr f"
      by (simp add: bind_result_def getIndex_def length_getIndices_loop)
  }
qed

theorem index_roundtrip_witness:
  "bind_result (getIndex \<lparr>dim = [2, 3], data = [0, 1, 2, 3, 4, 5 :: real]\<rparr> [- 1, 1])
       (getIndices \<lparr>dim = [2, 3], data = [0, 1, 2, 3, 4, 5 :: real]\<rparr>) = Inr [1, 1]
   \<and> bind_result (getIndex \<lparr>dim = [2, 3], data = [0, 1, 2, 3, 4, 5 :: real]\<rparr> [1, 2])
       (getIndices \<lparr>dim = [2, 3], data = [0, 1, 2, 3, 4, 5 :: real]\<rparr>) = Inr [1, 2]
   \<and> bind_result (getIndices \<lparr>dim = [2, 3], data = [0, 1, 2, 3, 4, 5 :: real]\<rparr> 4)
       (getIndex \<lparr>dim = [2, 3], data = [0, 1, 2, 3, 4, 5 :: real]\<rparr>) = Inr 4"
proof -
  have c: "Matrix_new [2, 3] (Some [0, 1, 2, 3, 4, 5])
      = Inr \<lparr>dim = [2, 3], data = [0, 1, 2, 3, 4, 5 :: real]\<rparr>"
    by (simp add: Matrix_new_Some_Inr)
  show ?thesis
    using index_roundtrip [OF c, of "[- 1, 1]" 4] index_roundtrip [OF c, of "[1, 2]" 4]
    by (simp add: less_Suc_eq all_conj_distrib)
qed

text \<open>With a negative component the multi-index does not come back as it went in:
  on an axis of size 3 the index \<open>-1\<close> comes back as \<open>2\<close>.\<close>

theorem index_roundtrip_negative:
  "Matrix_new [3] (Some [0, 1, 2]) = Inr \<lparr>dim = [3], data = [0, 1, 2 :: real]\<rparr>
   \<and> getIndex \<lparr>dim = [3], data = [0, 1, 2 :: real]\<rparr> [- 1] = Inr 2
   \<and> getIndices \<lparr>dim = [3], data = [0, 1, 2 :: real]\<rparr> 2 = Inr [2]
   \<and> bind_result (getIndex \<lparr>dim = [3], data = [0, 1, 2 :: real]\<rparr> [- 1])
        (getIndices \<lparr>dim = [3], data = [0, 1, 2 :: real]\<rparr>) \<noteq> Inr [- 1]"
  by code_simp

section \<open>Determinant\<close>

subsection \<open>The unsigned modulus on integers\<close>

lemma js_rem_of_int_nonneg:
  assumes "0 \<le> a" "0 < b"
  shows "js_rem (of_int a) (of_int b) = of_int (a mod b)"
proof -
  have "js_rem (of_int a) (of_int b) = of_int a - of_int b * of_int \<lfloor>of_int a / (of_int b :: real)\<rfloor>"
    using assms by (intro js_rem_nonneg) simp_all
  also have "\<lfloor>of_int a / (of_int b :: real)\<rfloor> = a div b" by (rule floor_divide_of_int_eq)
  also have "of_int a - of_int b * of_int (a div b) = (of_int (a - b * (a div b)) :: real)" by simp
  also have "a - b * (a div b) = a mod b" by (simp add: minus_mult_div_eq_mod)
  finally show ?thesis .
qed

lemma js_rem_of_int_neg:
  assumes "a < 0" "0 < b"
  shows "js_rem (of_int a) (of_int b) = - of_int ((- a) mod b)"
proof -
  have "of_int a / (of_int b :: real) < 0" using assms by (simp add: divide_less_0_iff)
  then have "js_rem (of_int a) (of_int b)
      = of_int a - of_int b * of_int \<lceil>of_int a / (of_int b :: real)\<rceil>"
    by (simp add: js_rem_def trunc_def)
  also have "\<lceil>of_int a / (of_int b :: real)\<rceil> = - ((- a) div b)"
  proof -
    have "- (of_int a / of_int b :: real) = of_int (- a) / of_int b" by simp
    then have "\<lfloor>- (of_int a / of_int b :: real)\<rfloor> = (- a) div b"
      by (simp only: floor_divide_of_int_eq)
    then show ?thesis by (simp only: ceiling_def)
  qed
  also have "of_int a - of_int b * of_int (- ((- a) div b))
      = - (of_int ((- a) - b * ((- a) div b)) :: real)" by simp
  also have "(- a) - b * ((- a) div b) = (- a) mod b" by (simp add: minus_mult_div_eq_mod)
  finally show ?thesis .
qed

lemma mod_js_of_int:
  assumes "0 < b"
  shows "mod_js (of_int a) (of_int b) = of_int (a mod b)"
proof (cases "0 \<le> a")
  case True
  have "mod_js (of_int a) (of_int b) = js_rem (of_int (a mod b + b)) (of_int b)"
    using True assms by (simp add: mod_js_def js_rem_of_int_nonneg)
  also have "\<dots> = of_int ((a mod b + b) mod b)"
    using assms by (intro js_rem_of_int_nonneg) simp_all
  finally show ?thesis by simp
next
  case False
  then have "mod_js (of_int a) (of_int b) = js_rem (of_int (b - (- a) mod b)) (of_int b)"
    using assms by (simp add: mod_js_def js_rem_of_int_neg)
  also have "\<dots> = of_int ((b - (- a) mod b) mod b)"
    using assms by (intro js_rem_of_int_nonneg) (simp_all add: less_imp_le)
  also have "(b - (- a) mod b) mod b = a mod b"
    by (metis (no_types) minus_mod_self1 mod_minus_eq minus_minus mod_diff_right_eq diff_0 diff_0_right)
  finally show ?thesis .
qed

subsection \<open>The wrap-around sum in closed form\<close>

lemma count_to_real [simp]: "count_to (real k) = [0..<k]"
  by (simp add: count_to_def)

lemma mod_js_add_nat:
  "0 < k \<Longrightarrow> mod_js (real c + real i) (real k) = real ((c + i) mod k)"
  using mod_js_of_int [of "int k" "int c + int i"]
  by (simp add: zmod_int [symmetric] flip: of_nat_add)

lemma mod_js_diff_nat:
  "0 < k \<Longrightarrow> mod_js (real c - real i) (real k) = real (nat ((int c - int i) mod int k))"
  using mod_js_of_int [of "int k" "int c - int i"] by simp

lemma get_2D:
  assumes "dim m = [real r, real c]" "i < r" "j < c"
  shows "get m [real i, real j] = Inr (data m ! (i * c + j))"
proof -
  have "real i * real c + real j = real (i * c + j)" by simp
  then have "nat \<lfloor>real i * real c + real j\<rfloor> = i * c + j" by (simp only: floor_of_nat nat_int)
  then show ?thesis
    using assms by (simp add: get_def getIndex_def bind_result_def js_rem_one_iff)
qed

lemma length_grid: "length (concat (map (\<lambda>y. map (f y) [0..<c]) [0..<r])) = r * c"
  by (induction r) simp_all

lemma nth_grid:
  "i < r \<Longrightarrow> j < c \<Longrightarrow> concat (map (\<lambda>y. map (f y) [0..<c]) [0..<r]) ! (i * c + j) = f i j"
proof (induction r)
  case 0
  then show ?case by simp
next
  case (Suc r)
  show ?case
  proof (cases "i < r")
    case True
    then have "i * c + j < r * c"
    proof -
      have "i * c + j < i * c + c" using Suc.prems(2) by simp
      also have "\<dots> = Suc i * c" by simp
      also have "\<dots> \<le> r * c" using True by (intro mult_le_mono1) simp
      finally show ?thesis .
    qed
    then show ?thesis using True Suc by (simp add: nth_append length_grid)
  next
    case False
    then have "i = r" using Suc.prems(1) by simp
    then show ?thesis using Suc.prems(2) by (simp add: nth_append length_grid)
  qed
qed

lemma set_upt_below: "set [0..<k] \<subseteq> {..<k}"
  by (simp add: subset_iff)

lemma det_diagonals_closed:
  assumes "dim m = [real k, real k]" "col < k" "set rows \<subseteq> {..<k}"
  shows "det_diagonals m (real k) col rows (add, sub)
     = Inr (add * prod_list (map (\<lambda>i. data m ! (i * k + (col + i) mod k)) rows),
            sub * prod_list (map (\<lambda>i. data m ! (i * k + nat ((int col - int i) mod int k))) rows))"
  using assms(3)
proof (induction rows arbitrary: add sub)
  case Nil
  then show ?case by simp
next
  case (Cons i rows)
  have k: "0 < k" and i: "i < k" using assms(2) Cons.prems by simp_all
  define b where "b = nat ((int col - int i) mod int k)"
  define f where "f = (col + i) mod k"
  have b: "b < k" using k by (simp add: b_def nat_less_iff)
  have f: "f < k" using k by (simp add: f_def)
  have "mod_js (real col - real i) (real k) = real b"
    unfolding b_def using k by (rule mod_js_diff_nat)
  moreover have "mod_js (real col + real i) (real k) = real f"
    unfolding f_def using k by (rule mod_js_add_nat)
  moreover have "get m [real i, real b] = Inr (data m ! (i * k + b))"
    using assms(1) i b by (rule get_2D)
  moreover have "get m [real i, real f] = Inr (data m ! (i * k + f))"
    using assms(1) i f by (rule get_2D)
  moreover have "set rows \<subseteq> {..<k}" using Cons.prems by simp
  ultimately show ?case
    using Cons.IH by (simp add: bind_result_def mult.assoc b_def f_def)
qed

lemma det_columns_closed:
  assumes "dim m = [real k, real k]" "set cols \<subseteq> {..<k}"
  shows "det_columns m (real k) cols sm
     = Inr (sm + sum_list (map (\<lambda>col.
          prod_list (map (\<lambda>i. data m ! (i * k + (col + i) mod k)) [0..<k])
          - prod_list (map (\<lambda>i. data m ! (i * k + nat ((int col - int i) mod int k))) [0..<k]))
        cols))"
  using assms(2)
proof (induction cols arbitrary: sm)
  case Nil
  then show ?case by simp
next
  case (Cons col cols)
  then have "col < k" by simp
  then have "det_diagonals m (real k) col [0..<k] (1, 1)
     = Inr (prod_list (map (\<lambda>i. data m ! (i * k + (col + i) mod k)) [0..<k]),
            prod_list (map (\<lambda>i. data m ! (i * k + nat ((int col - int i) mod int k))) [0..<k]))"
    using det_diagonals_closed [OF assms(1) _ set_upt_below, of col 1 1] by simp
  then show ?case
    using Cons by (simp add: bind_result_def add.assoc)
qed

lemma det_wrap_around:
  assumes "dim m = [real k, real k]" "3 \<le> k"
  shows "det m
     = Inr (sum_list (map (\<lambda>col.
          prod_list (map (\<lambda>i. data m ! (i * k + (col + i) mod k)) [0..<k])
          - prod_list (map (\<lambda>i. data m ! (i * k + nat ((int col - int i) mod int k))) [0..<k]))
        [0..<k]))"
proof -
  have "det m = det_columns m (real k) [0..<k] 0"
    using assms by (simp add: det_def is2D_def isSquare_def)
  then show ?thesis
    using det_columns_closed [OF assms(1) set_upt_below, of 0] by simp
qed

text \<open>
  C5. On the 4 by 4 matrix of the test, \<^verbatim>\<open>det()\<close> returns 120, and 120 is the sum over the
  starting columns \<open>c\<close> of the product of the entries \<open>M[i, (c + i) mod 4]\<close> minus the
  product of the entries \<open>M[i, (c - i) mod 4]\<close>, where \<open>M[i, j]\<close> is \<open>data[4 i + j]\<close>.
\<close>

theorem det_scenario:
  "Matrix_new [4, 4] (Some [1, 1, 1, 1, 1, 2, 4, 8, 1, - 2, 4, - 8, 1, 3, 9, 27])
     = Inr \<lparr>dim = [4, 4], data = [1, 1, 1, 1, 1, 2, 4, 8, 1, - 2, 4, - 8, 1, 3, 9, 27 :: real]\<rparr>
   \<and> det \<lparr>dim = [4, 4], data = [1, 1, 1, 1, 1, 2, 4, 8, 1, - 2, 4, - 8, 1, 3, 9, 27 :: real]\<rparr> = Inr 120
   \<and> sum_list (map (\<lambda>c.
          prod_list (map (\<lambda>i. [1, 1, 1, 1, 1, 2, 4, 8, 1, - 2, 4, - 8, 1, 3, 9, 27 :: real]
                                 ! (i * 4 + (c + i) mod 4)) [0..<4])
          - prod_list (map (\<lambda>i. [1, 1, 1, 1, 1, 2, 4, 8, 1, - 2, 4, - 8, 1, 3, 9, 27]
                                 ! (i * 4 + nat ((int c - int i) mod 4))) [0..<4]))
        [0..<4]) = 120"
  by code_simp

subsection \<open>The identity matrix\<close>

lemma identity_nat:
  assumes "0 < k"
  shows "identity (real k) = Inr \<lparr>dim = [real k, real k],
     data = concat (map (\<lambda>y. map (\<lambda>x. if y = x then 1 else 0) [0..<k]) [0..<k])\<rparr>"
  using assms by (simp add: identity_def Matrix_new_Some_Inr length_grid)

lemma sum_list_all_zero: "(\<And>x. x \<in> set xs \<Longrightarrow> g x = (0::real)) \<Longrightarrow> sum_list (map g xs) = 0"
  by (induction xs) simp_all

lemma prod_list_all_one: "(\<And>x. x \<in> set xs \<Longrightarrow> g x = (1::real)) \<Longrightarrow> prod_list (map g xs) = 1"
  by (induction xs) simp_all

lemma prod_list_has_zero: "x \<in> set xs \<Longrightarrow> g x = (0::real) \<Longrightarrow> prod_list (map g xs) = 0"
  by (simp add: prod_list_zero_iff image_iff) metis

lemma det_identity_large:
  assumes "3 \<le> k"
  defines "m \<equiv> \<lparr>dim = [real k, real k],
     data = concat (map (\<lambda>y. map (\<lambda>x. if y = x then 1 else (0::real)) [0..<k]) [0..<k])\<rparr>"
  shows "det m = Inr 1"
proof -
  define F where "F col = prod_list (map (\<lambda>i. data m ! (i * k + (col + i) mod k)) [0..<k])" for col
  define B where "B col = prod_list (map (\<lambda>i. data m ! (i * k + nat ((int col - int i) mod int k)))
      [0..<k])" for col
  have k: "0 < k" "1 < k" using assms(1) by simp_all
  have entry: "data m ! (i * k + j) = (if i = j then 1 else 0)" if "i < k" "j < k" for i j
    using that by (simp add: m_def nth_grid)
  have F0: "F 0 = 1"
    unfolding F_def by (rule prod_list_all_one) (simp add: entry)
  have Fc: "F col = 0" if "0 < col" "col < k" for col
    unfolding F_def
  proof (rule prod_list_has_zero [where x = 0])
    show "0 \<in> set [0..<k]" using k by simp
    show "data m ! (0 * k + (col + 0) mod k) = 0"
      using that k by (simp add: entry [of 0 col, simplified])
  qed
  have B0: "B 0 = 0"
    unfolding B_def
  proof (rule prod_list_has_zero [where x = 1])
    show "1 \<in> set [0..<k]" using k by simp
    have "(int 0 - int 1) mod int k = int k - 1"
      using k by (simp add: zmod_minus1)
    then have "nat ((int 0 - int 1) mod int k) = k - 1" by simp
    moreover have "data m ! (1 * k + (k - 1)) = 0"
      using assms(1) by (subst entry) simp_all
    ultimately show "data m ! (1 * k + nat ((int 0 - int 1) mod int k)) = 0" by simp
  qed
  have Bc: "B col = 0" if "0 < col" "col < k" for col
    unfolding B_def
  proof (rule prod_list_has_zero [where x = 0])
    show "0 \<in> set [0..<k]" using k by simp
    show "data m ! (0 * k + nat ((int col - int 0) mod int k)) = 0"
      using that k by (simp add: entry [of 0 col, simplified])
  qed
  have "det m = Inr (sum_list (map (\<lambda>col. F col - B col) [0..<k]))"
    unfolding F_def B_def by (rule det_wrap_around) (simp_all add: m_def assms(1))
  also have "[0..<k] = 0 # [1..<k]" using k by (simp add: upt_rec)
  also have "sum_list (map (\<lambda>col. F col - B col) (0 # [1..<k])) = 1"
  proof -
    have "sum_list (map (\<lambda>col. F col - B col) [1..<k]) = 0"
      by (rule sum_list_all_zero) (simp add: Fc Bc)
    then show ?thesis using F0 B0 by simp
  qed
  finally show ?thesis .
qed

text \<open>
  C4. For every integer \<open>n \<ge> 1\<close>, \<^verbatim>\<open>Matrix.identity(n)\<close> is built and its \<^verbatim>\<open>det()\<close>
  returns 1: by the two closed forms for the sizes 1 and 2, and by the wrap-around sum from
  size 3 on, where only the main diagonal has a non-zero product.
\<close>

theorem det_identity:
  assumes "n \<in> \<int>" "1 \<le> n"
  shows "bind_result (identity n) det = Inr (1::real)"
proof -
  obtain k :: nat where k: "n = real k" "1 \<le> k"
  proof -
    obtain z :: int where "n = of_int z" using assms(1) by (auto elim: Ints_cases)
    then have "n = real (nat z)" "1 \<le> nat z" using assms(2) by simp_all
    then show ?thesis by (rule that)
  qed
  consider "k = 1" | "k = 2" | "3 \<le> k" using k(2) by linarith
  then show ?thesis
  proof cases
    case 1
    have "bind_result (identity 1) det = Inr (1::real)" by code_simp
    then show ?thesis using 1 k(1) by simp
  next
    case 2
    have "bind_result (identity 2) det = Inr (1::real)" by code_simp
    then show ?thesis using 2 k(1) by simp
  next
    case 3
    then show ?thesis
      using det_identity_large [OF 3] by (simp add: k(1) identity_nat bind_result_def)
  qed
qed

theorem det_identity_witness:
  "(5::real) \<in> \<int> \<and> (1::real) \<le> 5 \<and> bind_result (identity 5) det = Inr (1::real)"
  using det_identity [of 5] by simp

section \<open>Casting to a vector\<close>

lemma collect_Inr: "collect (map (\<lambda>x. Inr (f x)) xs) = Inr (map f xs)"
  by (induction xs) (simp_all add: bind_result_def)

lemma vector_shape:
  assumes "Matrix_new dm dt = Inr mat" "isVector mat"
  obtains r where "dim mat = [real r, 1]" "length (data mat) = r" "0 < r"
proof -
  note inv = Matrix_new_invariant [OF assms(1)]
  obtain d where d: "dim mat = [d, 1]"
    using assms(2) by (cases "dim mat"; cases "tl (dim mat)") (auto simp: isVector_def is2D_def)
  then have "0 < d" "d \<in> \<int>" "real (length (data mat)) = d" using inv by simp_all
  then obtain z :: int where z: "d = of_int z" "0 < z" by (auto elim: Ints_cases)
  define r where "r = nat z"
  have "d = real r" "0 < r" using z by (simp_all add: r_def)
  moreover from this have "length (data mat) = r"
    using \<open>real (length (data mat)) = d\<close> by simp
  ultimately show ?thesis using d by (intro that [of r]) simp_all
qed

lemma Vec_toVec_vector:
  assumes "dim mat = [real r, 1]" "length (data mat) = r" "0 < n"
  shows "Vec_toVec (real n) mat
     = Inr \<lparr>dim = [real n, 1], data = take n (data mat) @ replicate (n - r) 0\<rparr>"
proof -
  define k where "k = min n r"
  have cnt: "count_to (min (real n) (shape mat ! 0)) = [0..<k]"
    using assms(1) by (simp add: shape_def k_def count_to_def min_def)
  have "get mat [real i, 0] = Inr (data mat ! i)" if "i < r" for i
    using get_2D [of mat r 1 i 0] assms(1) that by simp
  then have "map (\<lambda>i. get mat [real i, 0]) [0..<k] = map (\<lambda>i. Inr (data mat ! i)) [0..<k]"
    by (simp add: k_def)
  then have "collect (map (\<lambda>i. get mat [real i, 0]) [0..<k]) = Inr (map (\<lambda>i. data mat ! i) [0..<k])"
    by (simp only: collect_Inr)
  moreover have "map (\<lambda>i. data mat ! i) [0..<k] = take n (data mat)"
    using assms(2) by (intro nth_equalityI) (simp_all add: k_def)
  moreover have "nat \<lceil>real n - real (length (take n (data mat)))\<rceil> = n - r"
  proof -
    have "real n - real (min r n) = real (n - min r n)" by (simp add: of_nat_diff)
    then have "nat \<lceil>real n - real (min r n)\<rceil> = n - min r n"
      by (simp only: ceiling_of_nat nat_int)
    moreover have "n - min r n = n - r" by simp
    ultimately show ?thesis using assms(2) by simp
  qed
  moreover have "Vec_new (real n) (take n (data mat) @ replicate (n - r) 0)
      = Inr \<lparr>dim = [real n, 1], data = take n (data mat) @ replicate (n - r) 0\<rparr>"
    using assms(2,3) by (simp add: Vec_new_def Matrix_new_Some_Inr min_def)
  ultimately show ?thesis
    using assms(1) by (simp add: Vec_toVec_def isVector_def is2D_def cnt bind_result_def)
qed

text \<open>
  C8. \<^verbatim>\<open>toVec(N, mat)\<close> raises an invalid-value error when \<open>mat\<close> is not vector-shaped.
  For a vector-shaped matrix from the constructor and \<open>N\<close> one of 2, 3, 4 it returns a
  vector of shape \<open>[N, 1]\<close> whose entries below \<open>min(N, mat.dim[0])\<close> are those of \<open>mat\<close>
  and whose other entries are 0. The vector (100, -200) cast to size 4 is
  (100, -200, 0, 0), and that one cast to size 2 is (100, -200) again.
\<close>

theorem toVec_spec:
  "(\<not> isVector mat \<longrightarrow> Vec_toVec N mat = Inl ValueError)
   \<and> (Matrix_new dm dt = Inr mat \<and> isVector mat \<and> N \<in> {2, 3, 4}
      \<longrightarrow> (\<exists>v. Vec_toVec N mat = Inr v \<and> dim v = [N, 1] \<and> real (length (data v)) = N
             \<and> (\<forall>i. real i < min N (dim mat ! 0) \<longrightarrow> data v ! i = data mat ! i)
             \<and> (\<forall>i. min N (dim mat ! 0) \<le> real i \<and> real i < N \<longrightarrow> data v ! i = 0)))
   \<and> Vec_toVec 4 \<lparr>dim = [2, 1], data = [100, - 200 :: real]\<rparr>
        = Inr \<lparr>dim = [4, 1], data = [100, - 200, 0, 0 :: real]\<rparr>
   \<and> Vec_toVec 2 \<lparr>dim = [4, 1], data = [100, - 200, 0, 0 :: real]\<rparr>
        = Inr \<lparr>dim = [2, 1], data = [100, - 200 :: real]\<rparr>"
proof (intro conjI impI)
  assume "\<not> isVector mat"
  then show "Vec_toVec N mat = Inl ValueError" by (simp add: Vec_toVec_def)
next
  assume a: "Matrix_new dm dt = Inr mat \<and> isVector mat \<and> N \<in> {2, 3, 4}"
  then obtain r where r: "dim mat = [real r, 1]" "length (data mat) = r" "0 < r"
    by (auto elim: vector_shape)
  obtain n :: nat where n: "N = real n" "0 < n"
  proof -
    have "N = real 2 \<or> N = real 3 \<or> N = real 4" using a by auto
    then show ?thesis using that by (metis zero_less_numeral)
  qed
  define v where "v = \<lparr>dim = [real n, 1], data = take n (data mat) @ replicate (n - r) 0\<rparr>"
  have "Vec_toVec N mat = Inr v"
    unfolding n(1) v_def using r(1,2) n(2) by (rule Vec_toVec_vector)
  moreover have "dim v = [N, 1]" by (simp add: v_def n(1))
  moreover have "real (length (data v)) = N" using r(2) by (simp add: v_def n(1))
  moreover have "\<forall>i. real i < min N (dim mat ! 0) \<longrightarrow> data v ! i = data mat ! i"
    using r(1,2) by (simp add: v_def n(1) nth_append)
  moreover have "\<forall>i. min N (dim mat ! 0) \<le> real i \<and> real i < N \<longrightarrow> data v ! i = 0"
    using r(1,2) by (auto simp: v_def n(1) nth_append min_def split: if_splits)
  ultimately show "\<exists>v. Vec_toVec N mat = Inr v \<and> dim v = [N, 1] \<and> real (length (data v)) = N
             \<and> (\<forall>i. real i < min N (dim mat ! 0) \<longrightarrow> data v ! i = data mat ! i)
             \<and> (\<forall>i. min N (dim mat ! 0) \<le> real i \<and> real i < N \<longrightarrow> data v ! i = 0)"
    by blast
next
  show "Vec_toVec 4 \<lparr>dim = [2, 1], data = [100, - 200 :: real]\<rparr>
        = Inr \<lparr>dim = [4, 1], data = [100, - 200, 0, 0 :: real]\<rparr>"
    by code_simp
next
  show "Vec_toVec 2 \<lparr>dim = [4, 1], data = [100, - 200, 0, 0 :: real]\<rparr>
        = Inr \<lparr>dim = [2, 1], data = [100, - 200 :: real]\<rparr>"
    by code_simp
qed

theorem toVec_spec_witness:
  "(\<exists>v. Vec_toVec 3 \<lparr>dim = [2, 1], data = [100, - 200 :: real]\<rparr> = Inr v \<and> dim v = [3, 1]
        \<and> data v ! 0 = 100 \<and> data v ! 1 = - 200 \<and> data v ! 2 = 0)
   \<and> Vec_toVec 3 \<lparr>dim = [2, 2], data = [1, 2, 3, 4 :: real]\<rparr> = Inl ValueError"
proof -
  define M where "M = \<lparr>dim = [2, 1], data = [100, - 200 :: real]\<rparr>"
  have c: "Matrix_new [2, 1] (Some [100, - 200]) = Inr M \<and> isVector M \<and> (3::real) \<in> {2, 3, 4}"
    by (simp add: M_def Matrix_new_Some_Inr isVector_def is2D_def)
  obtain v where v: "Vec_toVec 3 M = Inr v" "dim v = [3, 1]"
      "\<forall>i. real i < min 3 (dim M ! 0) \<longrightarrow> data v ! i = data M ! i"
      "\<forall>i. min 3 (dim M ! 0) \<le> real i \<and> real i < 3 \<longrightarrow> data v ! i = 0"
    using toVec_spec [of M 3 "[2, 1]" "Some [100, - 200]"] c by blast
  have "data v ! 0 = 100" "data v ! 1 = - 200" "data v ! 2 = 0"
    using v(3) [rule_format, of 0] v(3) [rule_format, of 1] v(4) [rule_format, of 2]
    by (simp_all add: M_def)
  moreover have "Vec_toVec 3 \<lparr>dim = [2, 2], data = [1, 2, 3, 4 :: real]\<rparr> = Inl ValueError"
    using toVec_spec [of "\<lparr>dim = [2, 2], data = [1, 2, 3, 4 :: real]\<rparr>" 3]
    by (simp add: isVector_def is2D_def)
  ultimately show ?thesis using v(1,2) by (auto simp: M_def)
qed

section \<open>The dot product\<close>









section \<open>Slicing with a negative single index\<close>

lemma check_ranges_first_failure:
  assumes "j < length axes" "j < length rs" "check_range (axes ! j) (rs ! j) = Inl e"
    and "\<forall>k < j. \<exists>c. check_range (axes ! k) (rs ! k) = Inr c"
  shows "check_ranges axes rs = Inl e"
  using assms
proof (induction j arbitrary: axes rs)
  case 0
  then obtain axis axes' r rs' where "axes = axis # axes'" "rs = r # rs'"
    by (cases axes; cases rs) auto
  then show ?case using 0 by (simp add: bind_result_def)
next
  case (Suc j)
  then obtain axis axes' r rs' where l: "axes = axis # axes'" "rs = r # rs'"
    by (cases axes; cases rs) auto
  obtain c d where c: "check_range axis r = Inr (c, d)"
    using Suc.prems(4) l by (metis nth_Cons_0 zero_less_Suc surj_pair)
  have "check_ranges axes' rs' = Inl e"
  proof (rule Suc.IH)
    show "j < length axes'" "j < length rs'" using Suc.prems(1,2) l by simp_all
    show "check_range (axes' ! j) (rs' ! j) = Inl e" using Suc.prems(3) l by simp
    show "\<forall>k < j. \<exists>c. check_range (axes' ! k) (rs' ! k) = Inr c"
      using Suc.prems(4) l by (metis Suc_less_eq nth_Cons_Suc)
  qed
  then show ?case using c l by (simp add: bind_result_def)
qed

lemma check_ranges_some_failure:
  assumes "j < length axes" "j < length rs" "check_range (axes ! j) (rs ! j) = Inl e"
  shows "\<exists>e'. check_ranges axes rs = Inl e'"
proof -
  define P where "P k \<longleftrightarrow> (\<exists>e'. check_range (axes ! k) (rs ! k) = Inl e')" for k
  define i where "i = (LEAST k. P k)"
  have "P j" using assms(3) by (auto simp: P_def)
  then have i: "P i" "i \<le> j" "\<forall>k < i. \<not> P k"
    unfolding i_def by (auto intro: LeastI Least_le dest: not_less_Least)
  then obtain e' where "check_range (axes ! i) (rs ! i) = Inl e'" by (auto simp: P_def)
  moreover have "\<forall>k < i. \<exists>c. check_range (axes ! k) (rs ! k) = Inr c"
    using i(3) unfolding P_def by (metis sum.exhaust)
  ultimately have "check_ranges axes rs = Inl e'"
    using assms(1,2) i(2) by (intro check_ranges_first_failure [of i]) simp_all
  then show ?thesis by blast
qed

lemma check_range_negative_bounds:
  assumes "s \<in> \<int>" "t \<in> \<int>" "- axis \<le> s" "s < t" "t < 0"
  shows "check_range axis (Pair s t) = Inr (CRange (s + axis) (t + axis) 1, t - s)"
    and "check_range axis (Triple s t 1) = Inr (CRange (s + axis) (t + axis) 1, t - s)"
proof -
  obtain k :: int where k: "t - s = of_int k" using assms(1,2) by (metis Ints_cases Ints_diff)
  have "of_int \<lfloor>t - s\<rfloor> = t - s" using k by simp
  then show "check_range axis (Pair s t) = Inr (CRange (s + axis) (t + axis) 1, t - s)"
    "check_range axis (Triple s t 1) = Inr (CRange (s + axis) (t + axis) 1, t - s)"
    using assms by (simp_all add: check_bounds_def js_rem_one_iff abs_if)
qed

text \<open>
  C10. A range argument of \<^verbatim>\<open>slice\<close> that is a single negative number is rejected by
  its check with a range error. The call then never succeeds, and it ends in that range
  error whenever no more ranges than axes are passed and the ranges before it pass their
  checks (an earlier failure is thrown first). The bounds of \<^verbatim>\<open>[start, stop]\<close> and
  \<^verbatim>\<open>[start, stop, step]\<close> do count from the end: integral \<open>start < stop < 0\<close> with
  \<open>-dim[j] \<le> start\<close> pass the check as \<open>start + dim[j]\<close> and \<open>stop + dim[j]\<close>.
\<close>

theorem slice_negative_index:
  assumes "j < length ranges" "ranges ! j = Index r" "r < 0"
  shows "check_range (dim this ! j) (ranges ! j) = Inl RangeError
    \<and> (\<exists>e. slice this ranges = Inl e)
    \<and> (length ranges \<le> length (dim this)
         \<and> (\<forall>k < j. \<exists>c. check_range (dim this ! k) (ranges ! k) = Inr c)
       \<longrightarrow> slice this ranges = Inl RangeError)
    \<and> (\<forall>axis s t. s \<in> \<int> \<and> t \<in> \<int> \<and> - axis \<le> s \<and> s < t \<and> t < 0
       \<longrightarrow> check_range axis (Pair s t) = Inr (CRange (s + axis) (t + axis) 1, t - s)
         \<and> check_range axis (Triple s t 1) = Inr (CRange (s + axis) (t + axis) 1, t - s))"
proof (intro conjI impI allI)
  fix axis s t :: real
  assume "s \<in> \<int> \<and> t \<in> \<int> \<and> - axis \<le> s \<and> s < t \<and> t < 0"
  then have h: "s \<in> \<int>" "t \<in> \<int>" "- axis \<le> s" "s < t" "t < 0" by simp_all
  show "check_range axis (Pair s t) = Inr (CRange (s + axis) (t + axis) 1, t - s)"
    by (rule check_range_negative_bounds(1) [OF h])
  show "check_range axis (Triple s t 1) = Inr (CRange (s + axis) (t + axis) 1, t - s)"
    by (rule check_range_negative_bounds(2) [OF h])
next
  define ranges' where "ranges' = pad_ranges this ranges"
  show f: "check_range (dim this ! j) (ranges ! j) = Inl RangeError"
    using assms(2,3) by simp
  have nth: "ranges' ! k = ranges ! k" if "k \<le> j" for k
    using that assms(1) by (simp add: ranges'_def pad_ranges_def nth_append)
  have sl: "slice this ranges = bind_result (check_ranges (dim this) ranges') (\<lambda>(cs, newDim).
             bind_result (dfs this 0 cs (replicate (length (dim this)) 0)) (\<lambda>newData.
               Matrix_new newDim (Some newData)))"
    if "length ranges \<le> length (dim this)"
    using that by (simp add: slice_def ranges'_def Let_def)
  show "\<exists>e. slice this ranges = Inl e"
  proof (cases "length ranges \<le> length (dim this)")
    case True
    then have "\<exists>e'. check_ranges (dim this) ranges' = Inl e'"
      using assms(1) f nth [of j]
      by (intro check_ranges_some_failure [of j]) (simp_all add: ranges'_def pad_ranges_def)
    then show ?thesis using sl [OF True] by (auto simp: bind_result_def)
  next
    case False
    then show ?thesis by (simp add: slice_def)
  qed
  assume a: "length ranges \<le> length (dim this)
         \<and> (\<forall>k < j. \<exists>c. check_range (dim this ! k) (ranges ! k) = Inr c)"
  then have "check_ranges (dim this) ranges' = Inl RangeError"
    using assms(1) f nth
    by (intro check_ranges_first_failure [of j]) (simp_all add: ranges'_def pad_ranges_def)
  then show "slice this ranges = Inl RangeError"
    using sl a by (simp add: bind_result_def)
qed

theorem slice_negative_index_witness:
  "check_range 3 (Index (- 1)) = Inl RangeError
   \<and> slice \<lparr>dim = [2, 3], data = [0, 1, 2, 3, 4, 5 :: real]\<rparr> [Pair 0 1, Index (- 1)] = Inl RangeError
   \<and> check_range 3 (Pair (- 2) (- 1)) = Inr (CRange 1 2 1, 1)"
proof -
  have "\<forall>k < 1. \<exists>c. check_range ([2, 3] ! k) ([Pair 0 1, Index (- 1)] ! k) = Inr c"
    by (simp add: check_bounds_def js_rem_def trunc_def)
  moreover have "(- 2 :: real) \<in> \<int> \<and> (- 1 :: real) \<in> \<int> \<and> - (3 :: real) \<le> - 2
      \<and> (- 2 :: real) < - 1 \<and> (- 1 :: real) < 0"
    by simp
  ultimately show ?thesis
    using slice_negative_index [of 1 "[Pair 0 1, Index (- 1)]" "- 1"
        "\<lparr>dim = [2, 3], data = [0, 1, 2, 3, 4, 5 :: real]\<rparr>"]
    by (simp del: check_range.simps)
qed

section \<open>Methods in place and failure\<close>

lemma getIndices_in_range:
  "i < length (data this) \<Longrightarrow> \<exists>ix. getIndices this (real i) = Inr ix"
  by (simp add: getIndices_def js_rem_one_iff)

lemma withMap_loop_shape:
  "dim (snd (withMap_loop callback this i)) = dim this
   \<and> length (data (snd (withMap_loop callback this i))) = length (data this)"
proof (induction callback this i rule: withMap_loop.induct)
  case (1 callback this i)
  show ?case
  proof (cases "i < length (data this)")
    case False
    then show ?thesis by (simp add: withMap_loop.simps [of callback this i])
  next
    case True
    then obtain ix where ix: "getIndices this (real i) = Inr ix"
      using getIndices_in_range by blast
    show ?thesis
    proof (cases "callback (data this ! i) ix")
      case (Inl e)
      then show ?thesis using True ix by (simp add: withMap_loop.simps [of callback this i])
    next
      case (Inr v)
      then show ?thesis
        using True ix "1.IH" [OF True ix Inr]
        by (simp add: withMap_loop.simps [of callback this i])
    qed
  qed
qed

lemma withMap_loop_total:
  assumes "\<forall>v ix. \<exists>w. callback v ix = Inr w"
  shows "fst (withMap_loop callback this i) = Inr ()"
  using assms
proof (induction callback this i rule: withMap_loop.induct)
  case (1 callback this i)
  show ?case
  proof (cases "i < length (data this)")
    case False
    then show ?thesis by (simp add: withMap_loop.simps [of callback this i])
  next
    case True
    then obtain ix where ix: "getIndices this (real i) = Inr ix"
      using getIndices_in_range by blast
    show ?thesis
    proof (cases "callback (data this ! i) ix")
      case (Inl e)
      then show ?thesis using "1.prems" by (metis Inl_Inr_False)
    next
      case (Inr v)
      then show ?thesis
        using True ix "1.IH" [OF True ix Inr "1.prems"]
        by (simp add: withMap_loop.simps [of callback this i])
    qed
  qed
qed

text \<open>
  C6. When \<^verbatim>\<open>set\<close>, \<^verbatim>\<open>withAdd\<close>, \<^verbatim>\<open>withSub\<close>, \<^verbatim>\<open>transpose\<close> or \<^verbatim>\<open>withProject\<close> raises
  an error, the receiver is exactly as before the call. \<^verbatim>\<open>fill\<close>, \<^verbatim>\<open>withMulScalar\<close>,
  \<^verbatim>\<open>withAddScalar\<close>, \<^verbatim>\<open>withSubScalar\<close>, \<^verbatim>\<open>unit\<close> and \<^verbatim>\<open>rotate\<close> never raise.
  \<^verbatim>\<open>withMap\<close> checks nothing before it writes: when its callback raises, \<open>dim\<close> and the
  length of \<open>data\<close> are as before, and no more is promised about the entries.
\<close>

theorem in_place_failure:
  "(fst (set_m this v indices) = Inl e \<longrightarrow> snd (set_m this v indices) = this)
   \<and> (fst (withAdd this mat) = Inl e \<longrightarrow> snd (withAdd this mat) = this)
   \<and> (fst (withSub this mat) = Inl e \<longrightarrow> snd (withSub this mat) = this)
   \<and> (fst (transpose_m this) = Inl e \<longrightarrow> snd (transpose_m this) = this)
   \<and> (fst (withProject this mat) = Inl e \<longrightarrow> snd (withProject this mat) = this)
   \<and> fst (fill this v) = Inr ()
   \<and> fst (withMulScalar this a) = Inr ()
   \<and> fst (withAddScalar this a) = Inr ()
   \<and> fst (withSubScalar this a) = Inr ()
   \<and> fst (unit this) = Inr ()
   \<and> fst (rotate this angle) = Inr ()
   \<and> (fst (withMap this callback) = Inl e
        \<longrightarrow> dim (snd (withMap this callback)) = dim this
          \<and> length (data (snd (withMap this callback))) = length (data this))"
proof (intro conjI impI)
  show "snd (set_m this v indices) = this" if "fst (set_m this v indices) = Inl e"
    using that by (simp add: set_m_def split: sum.splits)
  show "snd (withAdd this mat) = this" if "fst (withAdd this mat) = Inl e"
    using that by (simp add: withAdd_def split: sum.splits)
  show "snd (withSub this mat) = this" if "fst (withSub this mat) = Inl e"
    using that by (simp add: withSub_def split: sum.splits)
  show "snd (transpose_m this) = this" if "fst (transpose_m this) = Inl e"
    using that by (simp add: transpose_m_def split: sum.splits if_splits)
  show "snd (withProject this mat) = this" if "fst (withProject this mat) = Inl e"
    using that by (simp add: withProject_def withMulScalar_def split: sum.splits)
  show "fst (fill this v) = Inr ()" by (simp add: fill_def)
  show "fst (withMulScalar this a) = Inr ()" by (simp add: withMulScalar_def)
  show "fst (withAddScalar this a) = Inr ()"
    unfolding withAddScalar_def withMap_def by (rule withMap_loop_total) simp
  show "fst (withSubScalar this a) = Inr ()"
    unfolding withSubScalar_def withMap_def by (rule withMap_loop_total) simp
  show "fst (unit this) = Inr ()" by (simp add: unit_def withMulScalar_def)
  show "fst (rotate this angle) = Inr ()" by (simp add: rotate_def Let_def)
  show "dim (snd (withMap this callback)) = dim this"
    unfolding withMap_def using withMap_loop_shape by blast
  show "length (data (snd (withMap this callback))) = length (data this)"
    unfolding withMap_def using withMap_loop_shape by blast
qed

theorem in_place_failure_witness:
  "fst (set_m \<lparr>dim = [2, 3], data = [0, 1, 2, 3, 4, 5 :: real]\<rparr> 9 [1, 3]) = Inl RangeError
   \<and> snd (set_m \<lparr>dim = [2, 3], data = [0, 1, 2, 3, 4, 5 :: real]\<rparr> 9 [1, 3])
       = \<lparr>dim = [2, 3], data = [0, 1, 2, 3, 4, 5 :: real]\<rparr>
   \<and> fst (withAdd \<lparr>dim = [2, 3], data = [0, 1, 2, 3, 4, 5 :: real]\<rparr>
            \<lparr>dim = [3, 2], data = [0, 1, 2, 3, 4, 5 :: real]\<rparr>) = Inl TypeError
   \<and> snd (withAdd \<lparr>dim = [2, 3], data = [0, 1, 2, 3, 4, 5 :: real]\<rparr>
            \<lparr>dim = [3, 2], data = [0, 1, 2, 3, 4, 5 :: real]\<rparr>)
       = \<lparr>dim = [2, 3], data = [0, 1, 2, 3, 4, 5 :: real]\<rparr>
   \<and> fst (transpose_m \<lparr>dim = [6], data = [0, 1, 2, 3, 4, 5 :: real]\<rparr>) = Inl TypeError
   \<and> snd (transpose_m \<lparr>dim = [6], data = [0, 1, 2, 3, 4, 5 :: real]\<rparr>)
       = \<lparr>dim = [6], data = [0, 1, 2, 3, 4, 5 :: real]\<rparr>
   \<and> fst (withMap \<lparr>dim = [3], data = [1, 2, 3 :: real]\<rparr> throwing_callback) = Inl CallbackError
   \<and> dim (snd (withMap \<lparr>dim = [3], data = [1, 2, 3 :: real]\<rparr> throwing_callback)) = [3]"
proof -
  have 1: "fst (set_m \<lparr>dim = [2, 3], data = [0, 1, 2, 3, 4, 5 :: real]\<rparr> 9 [1, 3]) = Inl RangeError"
    by code_simp
  have 2: "fst (withAdd \<lparr>dim = [2, 3], data = [0, 1, 2, 3, 4, 5 :: real]\<rparr>
            \<lparr>dim = [3, 2], data = [0, 1, 2, 3, 4, 5 :: real]\<rparr>) = Inl TypeError"
    by code_simp
  have 3: "fst (transpose_m \<lparr>dim = [6], data = [0, 1, 2, 3, 4, 5 :: real]\<rparr>) = Inl TypeError"
    by code_simp
  have 4: "fst (withMap \<lparr>dim = [3], data = [1, 2, 3 :: real]\<rparr> throwing_callback) = Inl CallbackError"
    by code_simp
  show ?thesis
    using 1 2 3 4
      in_place_failure [of "\<lparr>dim = [2, 3], data = [0, 1, 2, 3, 4, 5 :: real]\<rparr>" 9 "[1, 3]" RangeError]
      in_place_failure [of "\<lparr>dim = [2, 3], data = [0, 1, 2, 3, 4, 5 :: real]\<rparr>" _ _ TypeError
        "\<lparr>dim = [3, 2], data = [0, 1, 2, 3, 4, 5 :: real]\<rparr>"]
      in_place_failure [of "\<lparr>dim = [6], data = [0, 1, 2, 3, 4, 5 :: real]\<rparr>" _ _ TypeError]
      in_place_failure [of "\<lparr>dim = [3], data = [1, 2, 3 :: real]\<rparr>" _ _ CallbackError _ _ _
        throwing_callback]
    by simp
qed

text \<open>\<^verbatim>\<open>withMap\<close> with a callback that raises at the second position: the call raises and
  the first entry of the receiver is already overwritten.\<close>

theorem withMap_partial_write:
  "Matrix_new [3] (Some [1, 2, 3]) = Inr \<lparr>dim = [3], data = [1, 2, 3 :: real]\<rparr>
   \<and> withMap \<lparr>dim = [3], data = [1, 2, 3 :: real]\<rparr> throwing_callback
       = (Inl CallbackError, \<lparr>dim = [3], data = [11, 2, 3 :: real]\<rparr>)
   \<and> snd (withMap \<lparr>dim = [3], data = [1, 2, 3 :: real]\<rparr> throwing_callback)
       \<noteq> \<lparr>dim = [3], data = [1, 2, 3 :: real]\<rparr>"
  by code_simp

section \<open>Slicing with ascending ranges\<close>

lemma loop_up_set:
  "s \<in> \<int> \<Longrightarrow> p \<in> \<int> \<Longrightarrow> x \<in> set (loop_up s t p) \<Longrightarrow> x \<in> \<int> \<and> s \<le> x \<and> x < t"
proof (induction s t p rule: loop_up.induct)
  case (1 index stop step)
  show ?case
  proof (cases "index < stop \<and> 0 < step")
    case True
    then have "x = index \<or> x \<in> set (loop_up (index + step) stop step)"
      using "1.prems"(3) by (subst (asm) loop_up.simps) simp
    then show ?thesis
    proof
      assume "x = index"
      then show ?thesis using True "1.prems" by simp
    next
      assume "x \<in> set (loop_up (index + step) stop step)"
      then have "x \<in> \<int> \<and> index + step \<le> x \<and> x < stop"
        using "1.IH" [OF True] "1.prems"(1,2) by simp
      then show ?thesis using True by simp
    qed
  next
    case False
    then show ?thesis using "1.prems"(3) by (subst (asm) loop_up.simps) simp
  qed
qed

lemma loop_up_length:
  "0 < p \<Longrightarrow> length (loop_up s t p) = nat \<lceil>(t - s) / p\<rceil>"
proof (induction s t p rule: loop_up.induct)
  case (1 index stop step)
  show ?case
  proof (cases "index < stop")
    case True
    have "(stop - (index + step)) / step = (stop - index) / step - 1"
      using "1.prems" by (simp add: field_simps)
    then have c1: "\<lceil>(stop - (index + step)) / step\<rceil> = \<lceil>(stop - index) / step\<rceil> - 1"
      by simp
    have c2: "0 < \<lceil>(stop - index) / step\<rceil>" using True "1.prems" by simp
    have "length (loop_up index stop step) = Suc (length (loop_up (index + step) stop step))"
      using True "1.prems" by (subst loop_up.simps) simp
    also have "length (loop_up (index + step) stop step) = nat \<lceil>(stop - (index + step)) / step\<rceil>"
      using "1.IH" True "1.prems" by simp
    also have "Suc (nat \<lceil>(stop - (index + step)) / step\<rceil>) = nat \<lceil>(stop - index) / step\<rceil>"
      using c1 c2 by linarith
    finally show ?thesis .
  next
    case False
    then have "(stop - index) / step \<le> 0" using "1.prems" by (simp add: divide_le_0_iff)
    then have "\<lceil>(stop - index) / step\<rceil> \<le> 0" by (simp add: ceiling_le_zero)
    then show ?thesis using False by (subst loop_up.simps) simp
  qed
qed

lemma get_valid:
  assumes "\<forall>d \<in> set (dim this). 0 < d \<and> d \<in> \<int>"
    and "length idx = length (dim this)"
    and "\<forall>j < length idx. idx ! j \<in> \<int> \<and> 0 \<le> idx ! j \<and> idx ! j < dim this ! j"
  shows "\<exists>v. get this idx = Inr v"
proof -
  have "list_all2 (\<lambda>d i. i \<in> \<int> \<and> - d \<le> i \<and> i < d) (dim this) idx"
    unfolding list_all2_conv_all_nth
  proof (intro conjI allI impI)
    show "length (dim this) = length idx" using assms(2) by simp
    fix j assume j: "j < length (dim this)"
    then have "0 < dim this ! j" using assms(1) by (simp add: all_set_conv_all_nth)
    then show "idx ! j \<in> \<int>" "- (dim this ! j) \<le> idx ! j" "idx ! j < dim this ! j"
      using assms(2,3) j by (simp_all add: order_trans [of "- (dim this ! j)" 0])
  qed
  from getIndices_getIndex_loop [OF this assms(1), of 0]
  obtain v where "getIndex_loop (dim this) idx 0 = Inr v" by auto
  then show ?thesis using assms(2) by (simp add: get_def getIndex_def bind_result_def)
qed

lemma collect_all_Inr:
  assumes "\<forall>r \<in> set rs. \<exists>ys. r = Inr ys \<and> length ys = L"
  shows "\<exists>yss. collect rs = Inr yss \<and> length yss = length rs \<and> (\<forall>ys \<in> set yss. length ys = L)"
  using assms
proof (induction rs)
  case Nil
  then show ?case by simp
next
  case (Cons r rs)
  then obtain ys yss where "r = Inr ys" "length ys = L" "collect rs = Inr yss"
    "length yss = length rs" "\<forall>ys \<in> set yss. length ys = L"
    by auto
  then show ?case by (simp add: bind_result_def)
qed

lemma length_concat_uniform: "\<forall>ys \<in> set yss. length ys = L \<Longrightarrow> length (concat yss) = length yss * L"
  by (induction yss) simp_all

lemma concat_results_uniform:
  assumes "\<forall>r \<in> set rs. \<exists>ys. r = Inr ys \<and> length ys = L"
  shows "\<exists>zs. concat_results rs = Inr zs \<and> length zs = length rs * L"
proof -
  obtain yss where "collect rs = Inr yss" "length yss = length rs" "\<forall>ys \<in> set yss. length ys = L"
    using collect_all_Inr [OF assms] by blast
  then show ?thesis
    using length_concat_uniform [of yss L] by (simp add: concat_results_def bind_result_def)
qed

lemma dfs_ascending:
  assumes dims: "\<forall>d \<in> set (dim this). 0 < d \<and> d \<in> \<int>"
  shows "length indices = length (dim this) \<Longrightarrow> i + length cs = length (dim this)
    \<Longrightarrow> \<forall>j < i. indices ! j \<in> \<int> \<and> 0 \<le> indices ! j \<and> indices ! j < dim this ! j
    \<Longrightarrow> \<forall>j < length cs. ascending (dim this ! (i + j)) (cs ! j)
    \<Longrightarrow> \<exists>xs. dfs this i cs indices = Inr xs
          \<and> length xs = prod_list (map (\<lambda>c. length (visited c)) cs)"
proof (induction cs arbitrary: i indices)
  case Nil
  then obtain v where "get this indices = Inr v"
    using get_valid [OF dims, of indices] by auto
  then show ?case by (simp add: bind_result_def)
next
  case (Cons c cs)
  have i: "i < length (dim this)" using Cons.prems(2) by simp
  have c: "ascending (dim this ! i) c" using Cons.prems(4) by fastforce
  have step: "\<exists>xs. dfs this (i + 1) cs (indices[i := x]) = Inr xs
          \<and> length xs = prod_list (map (\<lambda>c. length (visited c)) cs)"
    if x: "x \<in> \<int>" "0 \<le> x" "x < dim this ! i" for x
  proof (rule Cons.IH)
    show "length (indices[i := x]) = length (dim this)" using Cons.prems(1) by simp
    show "i + 1 + length cs = length (dim this)" using Cons.prems(2) by simp
    show "\<forall>j < i + 1. indices[i := x] ! j \<in> \<int> \<and> 0 \<le> indices[i := x] ! j
        \<and> indices[i := x] ! j < dim this ! j"
      using Cons.prems(1,3) i x by (auto simp: nth_list_update less_Suc_eq)
    show "\<forall>j < length cs. ascending (dim this ! (i + 1 + j)) (cs ! j)"
    proof (intro allI impI)
      fix j assume "j < length cs"
      then show "ascending (dim this ! (i + 1 + j)) (cs ! j)"
        using Cons.prems(4) [rule_format, of "Suc j"] by simp
    qed
  qed
  show ?case
  proof (cases c)
    case (CIndex r)
    then show ?thesis using c step [of r] by simp
  next
    case (CRange s t p)
    then have a: "s \<in> \<int>" "p \<in> \<int>" "0 \<le> s" "s < t" "t \<le> dim this ! i" "0 < p"
      using c by simp_all
    have "\<forall>r \<in> set (map (\<lambda>index. dfs this (i + 1) cs (indices[i := index])) (loop_up s t p)).
        \<exists>ys. r = Inr ys \<and> length ys = prod_list (map (\<lambda>c. length (visited c)) cs)"
    proof
      fix r assume "r \<in> set (map (\<lambda>index. dfs this (i + 1) cs (indices[i := index])) (loop_up s t p))"
      then obtain x where x: "x \<in> set (loop_up s t p)"
        "r = dfs this (i + 1) cs (indices[i := x])" by auto
      then have "x \<in> \<int> \<and> s \<le> x \<and> x < t" using loop_up_set [OF a(1,2)] by blast
      then show "\<exists>ys. r = Inr ys \<and> length ys = prod_list (map (\<lambda>c. length (visited c)) cs)"
        using step [of x] a x(2) by simp
    qed
    from concat_results_uniform [OF this]
    show ?thesis using CRange a(4) by simp
  qed
qed

lemma check_bounds_Inr:
  assumes "check_bounds axis s0 t0 p0 = Inr (c, d)" "0 < axis" "axis \<in> \<int>"
  obtains s t p where "c = CRange s t p" "s \<in> \<int>" "t \<in> \<int>" "p \<in> \<int>" "0 \<le> s" "s < axis"
    "0 \<le> t" "t \<le> axis" "p \<noteq> 0" "\<not> (s < t \<and> p < 0)" "\<not> (t < s \<and> 0 < p)"
    "d = of_int \<lfloor>\<bar>s - t\<bar> / p\<rfloor>"
proof -
  define s where "s = s0 + axis * (if s0 < 0 then 1 else 0)"
  define t where "t = t0 + axis * (if t0 < 0 then 1 else 0)"
  define p where "p = (case p0 of Some x \<Rightarrow> x | None \<Rightarrow> if t > s then 1 else - 1)"
  have b: "s0 \<in> \<int>" "- axis \<le> s0" "s0 < axis" "t0 \<in> \<int>" "- axis \<le> t0" "t0 \<le> axis"
    using assms(1) by (auto simp: check_bounds_def Let_def js_rem_one_iff split: if_splits)
  have r: "p \<in> \<int>" "p \<noteq> 0" "\<not> (s < t \<and> p < 0)" "\<not> (t < s \<and> 0 < p)"
    "c = CRange s t p" "d = of_int \<lfloor>\<bar>s - t\<bar> / p\<rfloor>"
    using assms(1) unfolding check_bounds_def Let_def s_def [symmetric] t_def [symmetric]
      p_def [symmetric]
    by (auto simp: js_rem_one_iff split: if_splits)
  have "s \<in> \<int>" "t \<in> \<int>" "0 \<le> s" "s < axis" "0 \<le> t" "t \<le> axis"
    using b assms(2,3) by (auto simp: s_def t_def)
  then show ?thesis using r by (intro that [of s t p])
qed

lemma check_range_ascending:
  assumes "check_range axis r = Inr (c, d)" "0 < axis" "axis \<in> \<int>"
    and "case c of CIndex r \<Rightarrow> True | CRange start stop step \<Rightarrow> start < stop \<and> (stop - start) / step \<in> \<int>"
  shows "ascending axis c \<and> d = real (length (visited c)) 
      \<and> d = (case c of CIndex r \<Rightarrow> 1
              | CRange start stop step \<Rightarrow> of_int \<lfloor>\<bar>start - stop\<bar> / \<bar>step\<bar>\<rfloor>)"
proof -
  have range: ?thesis if cb: "check_bounds axis s0 t0 p0 = Inr (c, d)" for s0 t0 p0
  proof -
    from check_bounds_Inr [OF cb assms(2,3)]
    obtain s t p where f: "c = CRange s t p" "s \<in> \<int>" "t \<in> \<int>" "p \<in> \<int>" "0 \<le> s" "s < axis"
      "0 \<le> t" "t \<le> axis" "p \<noteq> 0" "\<not> (s < t \<and> p < 0)" "\<not> (t < s \<and> 0 < p)"
      "d = of_int \<lfloor>\<bar>s - t\<bar> / p\<rfloor>"
      by blast
    have g: "s < t" "(t - s) / p \<in> \<int>" using assms(4) f(1) by simp_all
    then have p: "0 < p" using f(9,10) by linarith
    obtain k :: int where k: "(t - s) / p = of_int k" using g(2) by (auto elim: Ints_cases)
    have "0 < (t - s) / p" using g(1) p by simp
    then have kpos: "0 < k" using k by simp
    have "\<bar>s - t\<bar> = t - s" using g(1) by simp
    then have d: "d = of_int k" using f(12) k by simp
    have "length (visited c) = nat \<lceil>(t - s) / p\<rceil>"
      using f(1) g(1) p by (simp add: loop_up_length)
    then have "real (length (visited c)) = of_int k" using k kpos by simp
    moreover have "ascending axis c" using f g(1) p by simp
    moreover have "of_int \<lfloor>\<bar>s - t\<bar> / \<bar>p\<bar>\<rfloor> = d" using f(12) p by simp
    ultimately show ?thesis using d f(1) by simp
  qed
  show ?thesis
  proof (cases r)
    case (Index x)
    then show ?thesis
      using assms(1) by (auto simp: js_rem_one_iff split: if_splits)
  next
    case (Pair s0 t0)
    then show ?thesis using assms(1) range by simp
  next
    case (Triple s0 t0 p0)
    then show ?thesis using assms(1) range by simp
  qed
qed

lemma check_ranges_Inr:
  "check_ranges axes rs = Inr (cs, ds) \<Longrightarrow>
     length cs = min (length axes) (length rs) \<and> length ds = length cs
     \<and> (\<forall>j < length cs. check_range (axes ! j) (rs ! j) = Inr (cs ! j, ds ! j))"
proof (induction axes arbitrary: rs cs ds)
  case Nil
  then show ?case by simp
next
  case (Cons axis axes)
  show ?case
  proof (cases rs)
    case Nil
    then show ?thesis using Cons.prems by simp
  next
    case (Cons r rs')
    then obtain c d cs' ds' where s: "check_range axis r = Inr (c, d)"
      "check_ranges axes rs' = Inr (cs', ds')" "cs = c # cs'" "ds = d # ds'"
      using Cons.prems by (auto simp: bind_result_def split: sum.splits prod.splits)
    show ?thesis
      using Cons.IH [OF s(2)] s(1,3,4) Cons by (auto simp: nth_Cons split: nat.splits)
  qed
qed

lemma prod_list_real: "prod_list (map (\<lambda>c. real (f c)) cs) = real (prod_list (map f cs))"
  by (induction cs) simp_all

lemma slice_checked_ascending:
  assumes "Matrix_new dm dt = Inr this"
    and "length ranges \<le> length (dim this)"
    and "check_ranges (dim this) (pad_ranges this ranges) = Inr (cs, newDim)"
    and "\<forall>c \<in> set cs. case c of CIndex r \<Rightarrow> True
           | CRange start stop step \<Rightarrow> start < stop \<and> (stop - start) / step \<in> \<int>"
  shows "\<exists>newData. slice this ranges = Inr \<lparr>dim = newDim, data = newData\<rparr>
     \<and> length newDim = length (dim this)
     \<and> (\<forall>j < length cs. newDim ! j = (case cs ! j of CIndex r \<Rightarrow> 1
           | CRange start stop step \<Rightarrow> of_int \<lfloor>\<bar>start - stop\<bar> / \<bar>step\<bar>\<rfloor>))"
proof -
  note inv = Matrix_new_invariant [OF assms(1)]
  have dims: "\<forall>d \<in> set (dim this). 0 < d \<and> d \<in> \<int>" using inv by simp
  define n where "n = length (dim this)"
  have n: "0 < n" using inv by (simp add: n_def)
  have "length (pad_ranges this ranges) = n" using assms(2) by (simp add: pad_ranges_def n_def)
  then have len: "length cs = n" "length newDim = n"
    and each: "\<forall>j < n. check_range (dim this ! j) (pad_ranges this ranges ! j)
        = Inr (cs ! j, newDim ! j)"
    using check_ranges_Inr [OF assms(3)] by (simp_all add: n_def)
  have asc: "ascending (dim this ! j) (cs ! j) \<and> newDim ! j = real (length (visited (cs ! j)))
      \<and> newDim ! j = (case cs ! j of CIndex r \<Rightarrow> 1
           | CRange start stop step \<Rightarrow> of_int \<lfloor>\<bar>start - stop\<bar> / \<bar>step\<bar>\<rfloor>)"
    if "j < n" for j
  proof (rule check_range_ascending)
    show "check_range (dim this ! j) (pad_ranges this ranges ! j) = Inr (cs ! j, newDim ! j)"
      using each that by simp
    show "0 < dim this ! j" "dim this ! j \<in> \<int>" using dims that by (simp_all add: n_def)
    show "case cs ! j of CIndex r \<Rightarrow> True
           | CRange start stop step \<Rightarrow> start < stop \<and> (stop - start) / step \<in> \<int>"
    proof -
      have "cs ! j \<in> set cs" using that len(1) by simp
      then show ?thesis by (rule assms(4) [rule_format])
    qed
  qed
  have "\<exists>xs. dfs this 0 cs (replicate n 0) = Inr xs
      \<and> length xs = prod_list (map (\<lambda>c. length (visited c)) cs)"
  proof (rule dfs_ascending [OF dims])
    show "length (replicate n (0::real)) = length (dim this)" by (simp add: n_def)
    show "0 + length cs = length (dim this)" using len(1) by (simp add: n_def)
    show "\<forall>j < 0. replicate n (0::real) ! j \<in> \<int> \<and> 0 \<le> replicate n (0::real) ! j
        \<and> replicate n 0 ! j < dim this ! j"
      by simp
    show "\<forall>j < length cs. ascending (dim this ! (0 + j)) (cs ! j)"
    proof (intro allI impI)
      fix j assume "j < length cs"
      then have "j < n" using len(1) by simp
      then show "ascending (dim this ! (0 + j)) (cs ! j)" using asc [of j] by simp
    qed
  qed
  then obtain xs where xs: "dfs this 0 cs (replicate n 0) = Inr xs"
    "length xs = prod_list (map (\<lambda>c. length (visited c)) cs)"
    by blast
  have nd: "newDim = map (\<lambda>c. real (length (visited c))) cs"
  proof (rule nth_equalityI)
    show "length newDim = length (map (\<lambda>c. real (length (visited c))) cs)"
      using len by simp
    fix j assume "j < length newDim"
    then have j: "j < n" using len(2) by simp
    then show "newDim ! j = map (\<lambda>c. real (length (visited c))) cs ! j"
      using asc [OF j] len(1) by simp
  qed
  have "real (length xs) = prod_list newDim" by (simp add: xs(2) nd prod_list_real)
  moreover have "\<forall>d \<in> set newDim. 0 < d \<and> d \<in> \<int>"
  proof
    fix d assume "d \<in> set newDim"
    then obtain j where j: "j < n" "d = newDim ! j" using len(2) by (metis in_set_conv_nth)
    have "d = real (length (visited (cs ! j)))" using asc [OF j(1)] j(2) by simp
    moreover have "0 < length (visited (cs ! j))"
    proof (cases "cs ! j")
      case (CIndex r)
      then show ?thesis by simp
    next
      case (CRange s t p)
      then have "s < t" "0 < p" using asc [OF j(1)] by simp_all
      then show ?thesis using CRange by (simp add: loop_up.simps [of s t p])
    qed
    ultimately show "0 < d \<and> d \<in> \<int>" by simp
  qed
  moreover have "newDim \<noteq> []" using len(2) n by auto
  ultimately have "Matrix_new newDim (Some xs) = Inr \<lparr>dim = newDim, data = xs\<rparr>"
    by (simp add: Matrix_new_Some_Inr)
  then have "slice this ranges = Inr \<lparr>dim = newDim, data = xs\<rparr>"
    using assms(2,3) xs(1) by (simp add: slice_def Let_def bind_result_def n_def)
  moreover have "length newDim = length (dim this)" using len(2) by (simp add: n_def)
  moreover have "\<forall>j < length cs. newDim ! j = (case cs ! j of CIndex r \<Rightarrow> 1
           | CRange start stop step \<Rightarrow> of_int \<lfloor>\<bar>start - stop\<bar> / \<bar>step\<bar>\<rfloor>)"
  proof (intro allI impI)
    fix j assume "j < length cs"
    then have "j < n" using len(1) by simp
    from asc [OF this]
    show "newDim ! j = (case cs ! j of CIndex r \<Rightarrow> 1
           | CRange start stop step \<Rightarrow> of_int \<lfloor>\<bar>start - stop\<bar> / \<bar>step\<bar>\<rfloor>)"
      by blast
  qed
  ultimately show ?thesis by blast
qed

subsection \<open>From the validity conditions to the result\<close>

lemma check_bounds_valid:
  assumes "js_rem s 1 = 0" "- axis \<le> s" "s < axis" "js_rem t 1 = 0" "- axis \<le> t" "t \<le> axis"
    and "p = (case p0 of Some x \<Rightarrow> x
              | None \<Rightarrow> if from_end axis t > from_end axis s then 1 else - 1)"
    and "js_rem p 1 = 0" "p \<noteq> 0"
    and "from_end axis s < from_end axis t \<longrightarrow> 0 < p"
    and "from_end axis t < from_end axis s \<longrightarrow> p < 0"
  shows "check_bounds axis s t p0
     = Inr (CRange (from_end axis s) (from_end axis t) p,
            of_int \<lfloor>\<bar>from_end axis s - from_end axis t\<bar> / p\<rfloor>)"
proof -
  have e: "b + axis * (if b < 0 then 1 else 0) = from_end axis b" for b
    by (simp add: from_end_def)
  have 1: "\<not> s < - axis" "\<not> s \<ge> axis" "\<not> t < - axis" "\<not> t > axis"
    using assms(2,3,5,6) by simp_all
  have 2: "\<not> (from_end axis s < from_end axis t \<and> p < 0)"
    "\<not> (from_end axis t < from_end axis s \<and> p > 0)"
    using assms(10,11) by auto
  show ?thesis
    unfolding check_bounds_def e Let_def assms(7) [symmetric]
    using assms(1,4,8,9) 1 2 by simp
qed

lemma check_range_valid:
  assumes "valid_range axis r"
  shows "\<exists>d. check_range axis r = Inr (normalised axis r, d)
           \<and> (empty_range (normalised axis r) \<longrightarrow> d = 0)"
proof (cases r)
  case (Index x)
  then show ?thesis using assms(1) by simp
next
  case (Pair s t)
  have "check_bounds axis s t None
     = Inr (CRange (from_end axis s) (from_end axis t)
              (if from_end axis t > from_end axis s then 1 else - 1),
            of_int \<lfloor>\<bar>from_end axis s - from_end axis t\<bar>
              / (if from_end axis t > from_end axis s then 1 else - 1)\<rfloor>)"
    using assms Pair by (intro check_bounds_valid) (simp_all add: js_rem_one_iff)
  then show ?thesis using Pair by simp
next
  case (Triple s t p)
  have "check_bounds axis s t (Some p)
     = Inr (CRange (from_end axis s) (from_end axis t) p,
            of_int \<lfloor>\<bar>from_end axis s - from_end axis t\<bar> / p\<rfloor>)"
    using assms Triple by (intro check_bounds_valid) simp_all
  then show ?thesis using Triple by simp
qed

lemma check_ranges_valid:
  assumes "length rs = length axes"
    and "\<forall>j < length rs. valid_range (axes ! j) (rs ! j)"
    and "\<forall>d \<in> set axes. 0 < d \<and> d \<in> \<int>"
  shows "\<exists>ds. check_ranges axes rs = Inr (map2 normalised axes rs, ds)
           \<and> length ds = length axes
           \<and> (\<forall>j < length rs. empty_range (normalised (axes ! j) (rs ! j)) \<longrightarrow> ds ! j = 0)"
  using assms
proof (induction rs axes rule: list_induct2)
  case Nil
  then show ?case by simp
next
  case (Cons r rs axis axes)
  obtain d where d: "check_range axis r = Inr (normalised axis r, d)"
    "empty_range (normalised axis r) \<longrightarrow> d = 0"
    using check_range_valid [of axis r] Cons.prems(1) by fastforce
  have "\<forall>j < length rs. valid_range (axes ! j) (rs ! j)"
    using Cons.prems(1) by (metis Suc_less_eq length_Cons nth_Cons_Suc)
  then obtain ds where ds: "check_ranges axes rs = Inr (map2 normalised axes rs, ds)"
    "length ds = length axes"
    "\<forall>j < length rs. empty_range (normalised (axes ! j) (rs ! j)) \<longrightarrow> ds ! j = 0"
    using Cons.IH Cons.prems(2) by auto
  have "check_ranges (axis # axes) (r # rs)
      = Inr (map2 normalised (axis # axes) (r # rs), d # ds)"
    using d(1) ds(1) by (simp add: bind_result_def)
  moreover have "length (d # ds) = length (axis # axes)" using ds(2) by simp
  moreover have "\<forall>j < length (r # rs).
      empty_range (normalised ((axis # axes) ! j) ((r # rs) ! j)) \<longrightarrow> (d # ds) ! j = 0"
    using d(2) ds(3) by (auto simp: nth_Cons split: nat.splits)
  ultimately show ?case by blast
qed

lemma pad_ranges_valid:
  assumes "length ranges \<le> length (dim this)"
    and "\<forall>j < length ranges. valid_range (dim this ! j) (ranges ! j)"
    and "\<forall>d \<in> set (dim this). 0 < d \<and> d \<in> \<int>"
  shows "length (pad_ranges this ranges) = length (dim this)"
    and "\<forall>j < length (pad_ranges this ranges). valid_range (dim this ! j) (pad_ranges this ranges ! j)"
    and "\<forall>j < length ranges. pad_ranges this ranges ! j = ranges ! j"
    and "\<forall>j < length (dim this). length ranges \<le> j \<longrightarrow> pad_ranges this ranges ! j = Pair 0 (dim this ! j)"
proof -
  show l: "length (pad_ranges this ranges) = length (dim this)"
    using assms(1) by (simp add: pad_ranges_def)
  show n1: "\<forall>j < length ranges. pad_ranges this ranges ! j = ranges ! j"
    by (simp add: pad_ranges_def nth_append)
  show n2: "\<forall>j < length (dim this). length ranges \<le> j
      \<longrightarrow> pad_ranges this ranges ! j = Pair 0 (dim this ! j)"
  proof (intro allI impI)
    fix j assume j: "j < length (dim this)" "length ranges \<le> j"
    then have "[length ranges..<length (dim this)] ! (j - length ranges) = j" by simp
    then show "pad_ranges this ranges ! j = Pair 0 (dim this ! j)"
      using j by (simp add: pad_ranges_def nth_append)
  qed
  show "\<forall>j < length (pad_ranges this ranges).
      valid_range (dim this ! j) (pad_ranges this ranges ! j)"
  proof (intro allI impI)
    fix j assume "j < length (pad_ranges this ranges)"
    then have j: "j < length (dim this)" using l by simp
    then have d: "0 < dim this ! j" "dim this ! j \<in> \<int>" using assms(3) by simp_all
    show "valid_range (dim this ! j) (pad_ranges this ranges ! j)"
    proof (cases "j < length ranges")
      case True
      then show ?thesis using assms(2) n1 by simp
    next
      case False
      then have "pad_ranges this ranges ! j = Pair 0 (dim this ! j)" using n2 j by simp
      then show ?thesis using d by (simp add: js_rem_one_iff)
    qed
  qed
qed

lemma dfs_empty:
  "\<exists>c \<in> set cs. empty_range c \<Longrightarrow> dfs this i cs indices = Inr []"
proof (induction cs arbitrary: i indices)
  case Nil
  then show ?case by simp
next
  case (Cons c cs)
  show ?case
  proof (cases c)
    case (CIndex r)
    then have "\<exists>c \<in> set cs. empty_range c" using Cons.prems by simp
    then show ?thesis using CIndex Cons.IH by simp
  next
    case (CRange s t p)
    show ?thesis
    proof (cases "s = t")
      case True
      then show ?thesis using CRange by (simp add: loop_down.simps [of t t p] concat_results_def bind_result_def)
    next
      case False
      then have "\<exists>c \<in> set cs. empty_range c" using Cons.prems CRange by simp
      then have "\<forall>r \<in> set (map (\<lambda>index. dfs this (i + 1) cs (indices[i := index]))
            (if s < t then loop_up s t p else loop_down s t p)).
          \<exists>ys. r = Inr ys \<and> length ys = 0"
        using Cons.IH by simp
      from concat_results_uniform [OF this]
      show ?thesis using CRange by simp
    qed
  qed
qed

lemma steps_up_case:
  "steps_up c \<Longrightarrow> (case c of CIndex r \<Rightarrow> True
       | CRange start stop step \<Rightarrow> start < stop \<and> (stop - start) / step \<in> \<int>)"
  by (cases c) (simp_all add: js_rem_one_iff)

lemma axis_length_case:
  "axis_length c = (case c of CIndex r \<Rightarrow> 1
       | CRange start stop step \<Rightarrow> of_int \<lfloor>\<bar>start - stop\<bar> / \<bar>step\<bar>\<rfloor>)"
  by (cases c) simp_all

text \<open>
  C2. On a matrix from the constructor, take a \<^verbatim>\<open>slice\<close> call with at most as many ranges
  as axes, every range valid for its axis. If every range runs upwards (the start before
  the stop, negative bounds counted from the end) by a step that divides its length, the
  call succeeds: the result has as many axes as the receiver, of length
  \<open>floor(|start - stop| / |step|)\<close> for a range, 1 for a single index, and the length of the
  receiver's axis where no range was given. If some range is empty (start = stop), the call
  raises an invalid-value error.
\<close>

theorem slice_lengths:
  assumes "Matrix_new dm dt = Inr this"
    and "length ranges \<le> length (dim this)"
    and "\<forall>j < length ranges. valid_range (dim this ! j) (ranges ! j)"
  shows "((\<forall>j < length ranges. steps_up (normalised (dim this ! j) (ranges ! j)))
          \<longrightarrow> (\<exists>m. slice this ranges = Inr m
                \<and> length (dim m) = length (dim this)
                \<and> (\<forall>j < length ranges.
                      dim m ! j = axis_length (normalised (dim this ! j) (ranges ! j)))
                \<and> (\<forall>j < length (dim this). length ranges \<le> j \<longrightarrow> dim m ! j = dim this ! j)))
       \<and> ((\<exists>j < length ranges. empty_range (normalised (dim this ! j) (ranges ! j)))
          \<longrightarrow> slice this ranges = Inl ValueError)"
proof -
  note inv = Matrix_new_invariant [OF assms(1)]
  have dims: "\<forall>d \<in> set (dim this). 0 < d \<and> d \<in> \<int>" using inv by simp
  define rs where "rs = pad_ranges this ranges"
  define n where "n = length (dim this)"
  define cs where "cs = map2 normalised (dim this) rs"
  note pad = pad_ranges_valid [OF assms(2,3) dims, folded rs_def]
  have lrs: "length rs = n" using pad(1) by (simp add: n_def)
  have lcs: "length cs = n" using lrs by (simp add: cs_def n_def)
  have ncs: "cs ! j = normalised (dim this ! j) (rs ! j)" if "j < n" for j
    using that lrs by (simp add: cs_def n_def)
  obtain ds where ds: "check_ranges (dim this) rs = Inr (cs, ds)" "length ds = n"
    "\<forall>j < length rs. empty_range (normalised (dim this ! j) (rs ! j)) \<longrightarrow> ds ! j = 0"
    using check_ranges_valid [OF _ pad(2) dims] pad(1) by (auto simp: cs_def n_def)
  have sl: "slice this ranges = bind_result (dfs this 0 cs (replicate n 0)) (\<lambda>newData.
        Matrix_new ds (Some newData))"
    using assms(2) ds(1) by (simp add: slice_def Let_def rs_def [symmetric] bind_result_def n_def)
  show ?thesis
  proof (intro conjI impI)
    assume up: "\<forall>j < length ranges. steps_up (normalised (dim this ! j) (ranges ! j))"
    have cs_up: "steps_up (cs ! j)" if j: "j < n" for j
    proof (cases "j < length ranges")
      case True
      then show ?thesis using up pad(3) ncs [OF j] by simp
    next
      case False
      then have "rs ! j = Pair 0 (dim this ! j)" using pad(4) j by (simp add: n_def)
      moreover have "0 < dim this ! j" "dim this ! j \<in> \<int>" using dims j by (simp_all add: n_def)
      ultimately show ?thesis using ncs [OF j] by (simp add: from_end_def js_rem_one_iff)
    qed
    have "\<forall>c \<in> set cs. case c of CIndex r \<Rightarrow> True
           | CRange start stop step \<Rightarrow> start < stop \<and> (stop - start) / step \<in> \<int>"
    proof
      fix c assume "c \<in> set cs"
      then obtain j where "j < n" "c = cs ! j" using lcs by (metis in_set_conv_nth)
      then have "steps_up c" using cs_up by simp
      then show "case c of CIndex r \<Rightarrow> True
           | CRange start stop step \<Rightarrow> start < stop \<and> (stop - start) / step \<in> \<int>"
        by (rule steps_up_case)
    qed
    from slice_checked_ascending [OF assms(1,2) ds(1) [unfolded rs_def] this]
    obtain newData where nd: "slice this ranges = Inr \<lparr>dim = ds, data = newData\<rparr>"
      "\<forall>j < length cs. ds ! j = (case cs ! j of CIndex r \<Rightarrow> 1
           | CRange start stop step \<Rightarrow> of_int \<lfloor>\<bar>start - stop\<bar> / \<bar>step\<bar>\<rfloor>)"
      by blast
    have "ds = map2 (\<lambda>axis r. axis_length (normalised axis r)) (dim this) rs"
    proof (rule nth_equalityI)
      show "length ds = length (map2 (\<lambda>axis r. axis_length (normalised axis r)) (dim this) rs)"
        using ds(2) lrs by (simp add: n_def)
      fix j assume "j < length ds"
      then have j: "j < n" using ds(2) by simp
      then have "ds ! j = axis_length (cs ! j)"
        using nd(2) lcs by (simp add: axis_length_case)
      then show "ds ! j = map2 (\<lambda>axis r. axis_length (normalised axis r)) (dim this) rs ! j"
        using j lrs ncs [OF j] by (simp add: n_def)
    qed
    then have dj: "ds ! j = axis_length (normalised (dim this ! j) (rs ! j))" if "j < n" for j
      using that lrs by (simp add: n_def)
    define m where "m = \<lparr>dim = ds, data = newData\<rparr>"
    have "slice this ranges = Inr m" using nd(1) by (simp add: m_def)
    moreover have "length (dim m) = length (dim this)" using ds(2) by (simp add: m_def n_def)
    moreover have "\<forall>j < length ranges.
        dim m ! j = axis_length (normalised (dim this ! j) (ranges ! j))"
    proof (intro allI impI)
      fix j assume j: "j < length ranges"
      then have "j < n" using assms(2) by (simp add: n_def)
      then show "dim m ! j = axis_length (normalised (dim this ! j) (ranges ! j))"
        using dj [of j] pad(3) j by (simp add: m_def)
    qed
    moreover have "\<forall>j < length (dim this). length ranges \<le> j \<longrightarrow> dim m ! j = dim this ! j"
    proof (intro allI impI)
      fix j assume j: "j < length (dim this)" "length ranges \<le> j"
      then have "rs ! j = Pair 0 (dim this ! j)" using pad(4) by simp
      moreover have "0 < dim this ! j" "dim this ! j \<in> \<int>" using dims j(1) by simp_all
      moreover from this obtain z :: int where "dim this ! j = of_int z"
        by (auto elim: Ints_cases)
      ultimately show "dim m ! j = dim this ! j"
        using dj [of j] j(1) by (simp add: m_def n_def from_end_def)
    qed
    ultimately show "\<exists>m. slice this ranges = Inr m
                \<and> length (dim m) = length (dim this)
                \<and> (\<forall>j < length ranges.
                      dim m ! j = axis_length (normalised (dim this ! j) (ranges ! j)))
                \<and> (\<forall>j < length (dim this). length ranges \<le> j \<longrightarrow> dim m ! j = dim this ! j)"
      by blast
  next
    assume "\<exists>j < length ranges. empty_range (normalised (dim this ! j) (ranges ! j))"
    then obtain j where j: "j < length ranges"
      "empty_range (normalised (dim this ! j) (ranges ! j))" by blast
    then have jn: "j < n" using assms(2) by (simp add: n_def)
    have e: "empty_range (cs ! j)" using j pad(3) ncs [OF jn] by simp
    then have "\<exists>c \<in> set cs. empty_range c" using jn lcs by (metis nth_mem)
    then have "dfs this 0 cs (replicate n 0) = Inr []" by (rule dfs_empty)
    then have s: "slice this ranges = Matrix_new ds (Some [])"
      using sl by (simp add: bind_result_def)
    have "ds ! j = 0" using ds(3) j(2) jn lrs pad(3) j(1) by simp
    then have "(0::real) \<in> set ds" using jn ds(2) by (metis nth_mem)
    then have "\<not> (\<forall>d \<in> set ds. 0 < d \<and> d \<in> \<int>)" by auto
    then have "\<And>m. Matrix_new ds (Some []) \<noteq> Inr m"
      by (simp add: Matrix_new_Some_Inr)
    then obtain err where "Matrix_new ds (Some ([] :: 'a list)) = Inl err"
      by (cases "Matrix_new ds (Some ([] :: 'a list))") auto
    then show "slice this ranges = Inl ValueError"
      using s Matrix_new_Some_Inl by metis
  qed
qed

theorem slice_lengths_witness:
  "(\<exists>m. slice \<lparr>dim = [2, 3, 4], data = [0, 1, 2, 3, 4, 5, 6, 7, 8, 9, 10, 11,
        12, 13, 14, 15, 16, 17, 18, 19, 20, 21, 22, 23 :: real]\<rparr> [Index 1, Pair 0 2] = Inr m
      \<and> length (dim m) = 3 \<and> dim m ! 0 = 1 \<and> dim m ! 1 = 2 \<and> dim m ! 2 = 4)
   \<and> slice \<lparr>dim = [2, 3], data = [0, 1, 2, 3, 4, 5 :: real]\<rparr> [Pair 1 1, Triple (- 3) 3 3]
     = Inl ValueError"
proof -
  define M where "M = \<lparr>dim = [2, 3, 4], data = [0, 1, 2, 3, 4, 5, 6, 7, 8, 9, 10, 11,
        12, 13, 14, 15, 16, 17, 18, 19, 20, 21, 22, 23 :: real]\<rparr>"
  define K where "K = \<lparr>dim = [2, 3], data = [0, 1, 2, 3, 4, 5 :: real]\<rparr>"
  have c: "Matrix_new [2, 3, 4] (Some [0, 1, 2, 3, 4, 5, 6, 7, 8, 9, 10, 11,
        12, 13, 14, 15, 16, 17, 18, 19, 20, 21, 22, 23]) = Inr M"
    by (simp add: M_def Matrix_new_Some_Inr)
  have k: "Matrix_new [2, 3] (Some [0, 1, 2, 3, 4, 5]) = Inr K"
    by (simp add: K_def Matrix_new_Some_Inr)
  have two: "(\<forall>j < Suc (Suc 0). P j) \<longleftrightarrow> P 0 \<and> P (Suc 0)"
    "(\<exists>j < Suc (Suc 0). P j) \<longleftrightarrow> P 0 \<or> P (Suc 0)" for P
    by (auto simp: less_Suc_eq)
  have "\<exists>m. slice M [Index 1, Pair 0 2] = Inr m
      \<and> length (dim m) = length (dim M)
      \<and> (\<forall>j < length [Index 1, Pair 0 2].
            dim m ! j = axis_length (normalised (dim M ! j) ([Index 1, Pair 0 2] ! j)))
      \<and> (\<forall>j < length (dim M). length [Index 1, Pair 0 2] \<le> j \<longrightarrow> dim m ! j = dim M ! j)"
  proof (rule slice_lengths [OF c, THEN conjunct1, THEN mp])
    show "length [Index 1, Pair 0 2] \<le> length (dim M)" by (simp add: M_def)
    show "\<forall>j < length [Index 1, Pair 0 2]. valid_range (dim M ! j) ([Index 1, Pair 0 2] ! j)"
      by (simp add: M_def two js_rem_one_iff)
    show "\<forall>j < length [Index 1, Pair 0 2].
        steps_up (normalised (dim M ! j) ([Index 1, Pair 0 2] ! j))"
      by (simp add: M_def two from_end_def js_rem_one_iff)
  qed
  then obtain m where m: "slice M [Index 1, Pair 0 2] = Inr m"
    "length (dim m) = length (dim M)"
    "\<forall>j < length [Index 1, Pair 0 2].
        dim m ! j = axis_length (normalised (dim M ! j) ([Index 1, Pair 0 2] ! j))"
    "\<forall>j < length (dim M). length [Index 1, Pair 0 2] \<le> j \<longrightarrow> dim m ! j = dim M ! j"
    by blast
  have "length (dim m) = 3" using m(2) by (simp add: M_def)
  moreover have "dim m ! 0 = 1" "dim m ! 1 = 2"
    using m(3) [rule_format, of 0] m(3) [rule_format, of 1]
    by (simp_all add: M_def from_end_def)
  moreover have "dim m ! 2 = 4" using m(4) [rule_format, of 2] by (simp add: M_def)
  moreover have "slice K [Pair 1 1, Triple (- 3) 3 3] = Inl ValueError"
  proof (rule slice_lengths [OF k, THEN conjunct2, THEN mp])
    show "length [Pair 1 1, Triple (- 3) 3 3] \<le> length (dim K)" by (simp add: K_def)
    show "\<forall>j < length [Pair 1 1, Triple (- 3) 3 3].
        valid_range (dim K ! j) ([Pair 1 1, Triple (- 3) 3 3] ! j)"
      by (simp add: K_def two js_rem_one_iff from_end_def)
    show "\<exists>j < length [Pair 1 1, Triple (- 3) 3 3].
        empty_range (normalised (dim K ! j) ([Pair 1 1, Triple (- 3) 3 3] ! j))"
      by (simp add: K_def two from_end_def)
  qed
  ultimately show ?thesis using m(1) unfolding M_def K_def by blast
qed

text \<open>The range \<open>[1, 1]\<close> on an axis of length 3 is valid and passes the checking loop,
  and the call raises an invalid-value error: the axis would have length 0, which the
  constructor refuses for every matrix.\<close>

theorem slice_empty_range:
  "Matrix_new [3] (Some [0, 1, 2 :: real]) = Inr \<lparr>dim = [3], data = [0, 1, 2 :: real]\<rparr>
   \<and> valid_range 3 (Pair 1 1)
   \<and> check_range 3 (Pair 1 1) = Inr (CRange 1 1 (- 1), 0)
   \<and> slice \<lparr>dim = [3], data = [0, 1, 2 :: real]\<rparr> [Pair 1 1] = Inl ValueError"
  by code_simp

section \<open>Transposing a square matrix twice\<close>

text \<open>What \<^verbatim>\<open>transpose\<close> leaves in \<open>data\<close>, for any 2-D shape, and the one case where a second
  call undoes the first: a square matrix, where keeping \<open>dim\<close> as it is does no harm.\<close>

lemma grid_of_nth:
  assumes "length xs = r * c"
  shows "concat (map (\<lambda>i. map (\<lambda>j. xs ! (i * c + j)) [0..<c]) [0..<r]) = xs"
proof (rule nth_equalityI)
  show "length (concat (map (\<lambda>i. map (\<lambda>j. xs ! (i * c + j)) [0..<c]) [0..<r])) = length xs"
    using assms by (simp add: length_grid)
  fix p assume "p < length (concat (map (\<lambda>i. map (\<lambda>j. xs ! (i * c + j)) [0..<c]) [0..<r]))"
  then have p: "p < r * c" by (simp add: length_grid)
  then have c: "0 < c" by (cases c) simp_all
  have "p div c < r" using p c by (simp add: less_mult_imp_div_less)
  moreover have "p mod c < c" using c by simp
  ultimately have "concat (map (\<lambda>i. map (\<lambda>j. xs ! (i * c + j)) [0..<c]) [0..<r])
      ! (p div c * c + p mod c) = xs ! (p div c * c + p mod c)"
    by (rule nth_grid)
  then show "concat (map (\<lambda>i. map (\<lambda>j. xs ! (i * c + j)) [0..<c]) [0..<r]) ! p = xs ! p"
    by simp
qed

lemma transpose_m_closed:
  assumes "dim m = [real r, real c]" "length (data m) = r * c"
  shows "transpose_m m
     = (Inr (), m\<lparr>data := concat (map (\<lambda>x. map (\<lambda>y. data m ! (y * c + x)) [0..<r]) [0..<c])\<rparr>)"
proof -
  define newData where
    "newData = concat (map (\<lambda>x. map (\<lambda>y. data m ! (y * c + x)) [0..<r]) [0..<c])"
  have "map (\<lambda>x. map (\<lambda>y. get m [real y, real x]) [0..<r]) [0..<c]
      = map (\<lambda>x. map (\<lambda>y. Inr (data m ! (y * c + x))) [0..<r]) [0..<c]"
    by (intro map_cong refl) (simp add: get_2D [OF assms(1)])
  also have "concat \<dots> = map Inr newData"
    by (simp add: newData_def map_concat comp_def)
  finally have "collect (concat (map (\<lambda>x. map (\<lambda>y. get m [real y, real x]) [0..<r]) [0..<c]))
      = Inr newData"
    using collect_Inr [of "\<lambda>x. x" newData] by simp
  moreover have "map (\<lambda>i. newData ! i) [0..<length (data m)] = newData"
  proof -
    have "length (data m) = length newData"
      using assms(2) by (simp add: newData_def length_grid mult.commute)
    then show ?thesis by (simp only: map_nth)
  qed
  ultimately show ?thesis
    using assms(1) by (simp add: transpose_m_def is2D_def newData_def)
qed

lemma transpose_twice_square:
  assumes "dim m = [real k, real k]" "length (data m) = k * k"
  shows "transpose_m (snd (transpose_m m)) = (Inr (), m)"
proof -
  define d1 where "d1 = concat (map (\<lambda>x. map (\<lambda>y. data m ! (y * k + x)) [0..<k]) [0..<k])"
  have 1: "transpose_m m = (Inr (), m\<lparr>data := d1\<rparr>)"
    unfolding d1_def using assms by (rule transpose_m_closed)
  have l1: "length d1 = k * k" by (simp add: d1_def length_grid)
  have n1: "d1 ! (x * k + y) = data m ! (y * k + x)" if "x < k" "y < k" for x y
    unfolding d1_def using that by (rule nth_grid)
  have "transpose_m (m\<lparr>data := d1\<rparr>)
      = (Inr (), m\<lparr>data := d1\<rparr>\<lparr>data := concat (map (\<lambda>x. map (\<lambda>y. data (m\<lparr>data := d1\<rparr>) ! (y * k + x))
          [0..<k]) [0..<k])\<rparr>)"
    by (rule transpose_m_closed) (simp_all add: assms(1) l1)
  moreover have "concat (map (\<lambda>x. map (\<lambda>y. d1 ! (y * k + x)) [0..<k]) [0..<k])
      = concat (map (\<lambda>x. map (\<lambda>y. data m ! (x * k + y)) [0..<k]) [0..<k])"
    by (intro arg_cong [where f = concat] map_cong refl) (simp add: n1)
  moreover have "\<dots> = data m" using assms(2) by (rule grid_of_nth)
  ultimately show ?thesis using 1 by simp
qed

end
